theory Spec2Isabelle
  imports Complex_Main "HOL-Library.Word"
begin

section \<open>Single-precision numbers of the sketch\<close>

text \<open>
  The sketch keeps the moisture percentage, the threshold and the two calibration
  constants in C \<open>float\<close> variables. A \<open>float\<close> is modelled by its value: a real
  for a finite number, and the three special values of the binary32 format. Every
  arithmetic operation computes the exact result and rounds it to the nearest
  number with a 24-bit significand, ties to the even significand; results below the
  normal range keep the fixed spacing \<open>2 ^ -149\<close>, results beyond the largest finite
  number become an infinity. The sign of a zero is not modelled: the only place where it
  could show is a division by zero, and the one divisor of the sketch,
  \<open>AirValue - WaterValue\<close>, is a difference, which is never a negative zero.
\<close>

datatype float = Finite real | PlusInf | MinusInf | NaN

text \<open>\<open>expo x\<close> is the binary exponent of a positive real number: \<open>2 ^ expo x \<le> x < 2 ^ (expo x + 1)\<close>.\<close>

function expo :: "real \<Rightarrow> int" where
  "expo x = (if x \<le> 0 then 0
             else if 2 \<le> x then expo (x / 2) + 1
             else if x < 1 then expo (x * 2) - 1
             else 0)"
  by pat_completeness auto
termination
proof (relation "measure (\<lambda>x. if 1 \<le> x then nat \<lfloor>x\<rfloor> else nat \<lceil>1 / x\<rceil> + 1)")
  show "wf (measure (\<lambda>x::real. if 1 \<le> x then nat \<lfloor>x\<rfloor> else nat \<lceil>1 / x\<rceil> + 1))"
    by simp
next
  fix x :: real
  assume "\<not> x \<le> 0" and x2: "2 \<le> x"
  have "\<lfloor>x / 2\<rfloor> < \<lfloor>x\<rfloor>"
  proof -
    have "x / 2 < of_int \<lfloor>x\<rfloor>"
    proof -
      have "x - 1 < of_int \<lfloor>x\<rfloor>" by linarith
      moreover have "x / 2 \<le> x - 1" using x2 by simp
      ultimately show ?thesis by linarith
    qed
    then show ?thesis by (simp add: floor_less_iff)
  qed
  moreover have "1 \<le> \<lfloor>x / 2\<rfloor>" using x2 by (simp add: le_floor_iff)
  ultimately show "(x / 2, x) \<in> measure (\<lambda>x. if 1 \<le> x then nat \<lfloor>x\<rfloor> else nat \<lceil>1 / x\<rceil> + 1)"
    using x2 by simp
next
  fix x :: real
  assume x0: "\<not> x \<le> 0" and "\<not> 2 \<le> x" and x1: "x < 1"
  have pos: "0 < x" using x0 by simp
  have big: "1 < 1 / x" using pos x1 by simp
  have c2: "2 \<le> \<lceil>1 / x\<rceil>"
  proof -
    have "1 < \<lceil>1 / x\<rceil>" using big by (simp add: less_ceiling_iff)
    then show ?thesis by simp
  qed
  show "(x * 2, x) \<in> measure (\<lambda>x. if 1 \<le> x then nat \<lfloor>x\<rfloor> else nat \<lceil>1 / x\<rceil> + 1)"
  proof (cases "1 \<le> x * 2")
    case True
    have "x * 2 < 2" using x1 by simp
    then have "\<lfloor>x * 2\<rfloor> < 2" by (simp only: floor_less_iff of_int_numeral)
    then have "nat \<lfloor>x * 2\<rfloor> < 2" by linarith
    moreover have "2 \<le> nat \<lceil>1 / x\<rceil>" using c2 by linarith
    ultimately have "nat \<lfloor>x * 2\<rfloor> < nat \<lceil>1 / x\<rceil> + 1" by linarith
    then show ?thesis using True x1 by simp
  next
    case False
    have "\<lceil>1 / (x * 2)\<rceil> < \<lceil>1 / x\<rceil>"
    proof -
      have e: "1 / (x * 2) = (1 / x) / 2" by simp
      have le: "1 / x \<le> of_int \<lceil>1 / x\<rceil>" by (rule le_of_int_ceiling)
      have "(of_int 2 :: real) \<le> of_int \<lceil>1 / x\<rceil>" using c2 by (simp only: of_int_le_iff)
      then have c2r: "(2::real) \<le> of_int \<lceil>1 / x\<rceil>" by simp
      have half: "y / 2 \<le> c - 1" if "y \<le> c" and "2 \<le> c" for y c :: real
        using that by linarith
      have "(1 / x) / 2 \<le> of_int \<lceil>1 / x\<rceil> - 1" using le c2r by (rule half)
      then have "1 / (x * 2) \<le> of_int (\<lceil>1 / x\<rceil> - 1)"
        by (simp only: e of_int_diff of_int_1)
      then have "\<lceil>1 / (x * 2)\<rceil> \<le> \<lceil>1 / x\<rceil> - 1" by (simp only: ceiling_le_iff)
      then show ?thesis by linarith
    qed
    then have "nat \<lceil>1 / (x * 2)\<rceil> < nat \<lceil>1 / x\<rceil>" using c2 by linarith
    then show ?thesis using False x1 by simp
  qed
qed

declare expo.simps [simp del]

definition pow2 :: "int \<Rightarrow> real" where
  "pow2 e = (if 0 \<le> e then 2 ^ nat e else 1 / 2 ^ nat (- e))"

text \<open>Rounding a real number to the nearest integer, a tie to the even one.\<close>

definition round_half_even :: "real \<Rightarrow> int" where
  "round_half_even q =
     (let f = \<lfloor>q\<rfloor>; d = q - of_int f
      in if d < 1 / 2 then f
         else if 1 / 2 < d then f + 1
         else if even f then f else f + 1)"

text \<open>
  The spacing of binary32 numbers around \<open>x\<close>: \<open>2 ^ (e - 23)\<close> for the exponent \<open>e\<close> of
  \<open>x\<close>, and \<open>2 ^ -149\<close> below the normal range.
\<close>

definition ulp :: "real \<Rightarrow> real" where
  "ulp x = pow2 (max (expo \<bar>x\<bar>) (- 126) - 23)"

definition nearest :: "real \<Rightarrow> real" where
  "nearest x = of_int (round_half_even (x / ulp x)) * ulp x"

definition max_float :: real where
  "max_float = (2 ^ 24 - 1) * 2 ^ 104"

definition round32 :: "real \<Rightarrow> float" where
  "round32 x =
     (let y = nearest x
      in if max_float < y then PlusInf
         else if y < - max_float then MinusInf
         else Finite y)"

fun fneg :: "float \<Rightarrow> float" where
  "fneg (Finite x) = Finite (- x)"
| "fneg PlusInf = MinusInf"
| "fneg MinusInf = PlusInf"
| "fneg NaN = NaN"

fun fadd :: "float \<Rightarrow> float \<Rightarrow> float" where
  "fadd (Finite x) (Finite y) = round32 (x + y)"
| "fadd NaN _ = NaN"
| "fadd _ NaN = NaN"
| "fadd PlusInf MinusInf = NaN"
| "fadd MinusInf PlusInf = NaN"
| "fadd PlusInf _ = PlusInf"
| "fadd MinusInf _ = MinusInf"
| "fadd _ PlusInf = PlusInf"
| "fadd _ MinusInf = MinusInf"

definition fsub :: "float \<Rightarrow> float \<Rightarrow> float" where
  "fsub a b = fadd a (fneg b)"

text \<open>The sign of a float: \<open>-1\<close>, \<open>0\<close> or \<open>1\<close>; only used on numbers.\<close>

fun fsgn :: "float \<Rightarrow> int" where
  "fsgn (Finite x) = (if x < 0 then - 1 else if x = 0 then 0 else 1)"
| "fsgn PlusInf = 1"
| "fsgn MinusInf = - 1"
| "fsgn NaN = 0"

definition inf_of_sign :: "int \<Rightarrow> float" where
  "inf_of_sign k = (if k < 0 then MinusInf else if k = 0 then NaN else PlusInf)"

fun fmul :: "float \<Rightarrow> float \<Rightarrow> float" where
  "fmul (Finite x) (Finite y) = round32 (x * y)"
| "fmul NaN _ = NaN"
| "fmul _ NaN = NaN"
| "fmul a b = inf_of_sign (fsgn a * fsgn b)"

text \<open>
  Division: a finite number divided by zero is an infinity with the sign of the
  dividend, \<open>0 / 0\<close> and \<open>inf / inf\<close> are NaN, a finite number divided by an infinity
  is zero.
\<close>

fun fdiv :: "float \<Rightarrow> float \<Rightarrow> float" where
  "fdiv (Finite x) (Finite y) =
     (if y = 0 then inf_of_sign (fsgn (Finite x)) else round32 (x / y))"
| "fdiv NaN _ = NaN"
| "fdiv _ NaN = NaN"
| "fdiv (Finite x) _ = Finite 0"
| "fdiv PlusInf (Finite y) = (if y < 0 then MinusInf else PlusInf)"
| "fdiv MinusInf (Finite y) = (if y < 0 then PlusInf else MinusInf)"
| "fdiv _ _ = NaN"

text \<open>The comparison \<open><\<close> of C: false as soon as one side is NaN.\<close>

fun fless :: "float \<Rightarrow> float \<Rightarrow> bool" where
  "fless (Finite x) (Finite y) = (x < y)"
| "fless NaN _ = False"
| "fless _ NaN = False"
| "fless MinusInf MinusInf = False"
| "fless MinusInf _ = True"
| "fless PlusInf _ = False"
| "fless _ PlusInf = True"
| "fless _ MinusInf = False"

text \<open>The comparison \<open><=\<close> of C.\<close>

fun fle :: "float \<Rightarrow> float \<Rightarrow> bool" where
  "fle (Finite x) (Finite y) = (x \<le> y)"
| "fle NaN _ = False"
| "fle _ NaN = False"
| "fle MinusInf _ = True"
| "fle _ PlusInf = True"
| "fle _ _ = False"

text \<open>The conversion of a C integer to \<open>float\<close>.\<close>

definition float_of_int :: "int \<Rightarrow> float" where
  "float_of_int i = round32 (of_int i)"

section \<open>The globals of the sketch\<close>

text \<open>
  \<open>unsigned long\<close> is 32 bits wide on the Arduino boards; \<open>dryTime\<close> and \<open>addWater\<close>
  are \<open>const long\<close> and are converted to \<open>unsigned long\<close> where the sketch compares
  them with the counters, so they are given as 32-bit words directly.
\<close>

definition AirValue :: float where
  "AirValue = Finite 620"

definition WaterValue :: float where
  "WaterValue = Finite 35"

definition dryTime :: "32 word" where
  "dryTime = 180000"

definition addWater :: "32 word" where
  "addWater = 20000"

definition intervalSense :: "32 word" where
  "intervalSense = 1000"

text \<open>
  The mutable globals, and the level of \<open>RELAY_PIN\<close> (\<open>True\<close> for \<open>HIGH\<close>: the pump
  runs). \<open>soilMoistureValue\<close> is a C \<open>int\<close> that only ever holds the result of
  \<open>analogRead\<close>; it is kept as an integer, and the facts below that depend on its size
  say so. The texts written to the display and to the serial line are outputs only: no
  branch of the sketch reads them, and they are left out of the state.
\<close>

record state =
  soilMoistureValue :: int
  soilMoisturePercent :: float
  thresholdAddWater :: float
  previousMillisSense :: "32 word"
  dryTimeSum :: "32 word"
  addWaterSum :: "32 word"
  timeAddH20 :: "32 word"
  relay :: bool

text \<open>The initial values of the globals; an output pin starts \<open>LOW\<close>.\<close>

definition init :: state where
  "init = \<lparr> soilMoistureValue = 0, soilMoisturePercent = Finite 0,
            thresholdAddWater = Finite 37, previousMillisSense = 0,
            dryTimeSum = 0, addWaterSum = 0, timeAddH20 = 0, relay = False \<rparr>"

section \<open>The body of \<open>loop\<close>\<close>

text \<open>
  Line 136, with the two calibration values as arguments:
  \<open>100 - (soilMoistureValue - WaterValue) / (AirValue - WaterValue) * 100\<close>.
\<close>

definition percent_of :: "float \<Rightarrow> float \<Rightarrow> int \<Rightarrow> float" where
  "percent_of air water raw =
     fsub (float_of_int 100)
       (fmul (fdiv (fsub (float_of_int raw) water) (fsub air water)) (float_of_int 100))"

definition moisture_percent :: "int \<Rightarrow> float" where
  "moisture_percent raw = percent_of AirValue WaterValue raw"

text \<open>Lines 141 to 169: the decision on the counters and the relay.\<close>

definition irrigate :: "state \<Rightarrow> state" where
  "irrigate s =
     (if fless (soilMoisturePercent s) (thresholdAddWater s) then
        let s1 = s\<lparr>dryTimeSum := dryTimeSum s + intervalSense\<rparr>
        in if dryTime \<le> dryTimeSum s1 then
             if addWaterSum s1 < addWater then
               s1\<lparr>addWaterSum := addWaterSum s1 + intervalSense, relay := True\<rparr>
             else
               s1\<lparr>addWaterSum := 0, dryTimeSum := 0, relay := False\<rparr>
           else
             s1\<lparr>timeAddH20 := dryTime - dryTimeSum s1\<rparr>
      else s\<lparr>relay := False\<rparr>)"

text \<open>
  Lines 130 to 171, the sampling tick: \<open>now\<close> is the value of \<open>millis()\<close>, \<open>raw\<close> the
  value of \<open>analogRead(A0)\<close>. \<open>sense_with\<close> takes the calibration values as
  arguments; \<open>sense\<close> is the tick of the sketch.
\<close>

definition sense_with :: "float \<Rightarrow> float \<Rightarrow> 32 word \<Rightarrow> int \<Rightarrow> state \<Rightarrow> state" where
  "sense_with air water now raw s =
     irrigate (s\<lparr>previousMillisSense := now, soilMoistureValue := raw,
                 soilMoisturePercent := percent_of air water raw\<rparr>)"

definition sense :: "32 word \<Rightarrow> int \<Rightarrow> state \<Rightarrow> state" where
  "sense now raw s = sense_with AirValue WaterValue now raw s"

text \<open>Lines 117 to 124: the two buttons, \<open>b1\<close> and \<open>b2\<close> the results of \<open>isPressed()\<close>.\<close>

definition buttons :: "bool \<Rightarrow> bool \<Rightarrow> state \<Rightarrow> state" where
  "buttons b1 b2 s =
     (let s1 = (if b1 then s\<lparr>thresholdAddWater := fadd (thresholdAddWater s) (float_of_int 1)\<rparr>
                else s)
      in if b2 then s1\<lparr>thresholdAddWater := fsub (thresholdAddWater s1) (float_of_int 1)\<rparr>
         else s1)"

text \<open>What one pass through \<open>loop\<close> reads from the outside.\<close>

record input =
  button1 :: bool
  button2 :: bool
  millis :: "32 word"
  analogRead :: int

definition loop :: "input \<Rightarrow> state \<Rightarrow> state" where
  "loop i s =
     (let s1 = buttons (button1 i) (button2 i) s
      in if intervalSense \<le> millis i - previousMillisSense s1
         then sense (millis i) (analogRead i) s1
         else s1)"

text \<open>Running \<open>loop\<close> once for each input of a list, in order.\<close>

fun run :: "input list \<Rightarrow> state \<Rightarrow> state" where
  "run [] s = s"
| "run (i # is) s = run is (loop i s)"

section \<open>Sampling ticks\<close>

text \<open>
  A pass through \<open>loop\<close> is a sampling tick when the test of line 129 succeeds. The
  reading of the tick is dry when line 141 finds it below the threshold, which the
  buttons of the same pass may just have changed; otherwise it is satisfied.
\<close>

definition samples :: "input \<Rightarrow> state \<Rightarrow> bool" where
  "samples i s \<longleftrightarrow> intervalSense \<le> millis i - previousMillisSense s"

definition dry_tick :: "input \<Rightarrow> state \<Rightarrow> bool" where
  "dry_tick i s \<longleftrightarrow>
     samples i s \<and>
     fless (moisture_percent (analogRead i))
       (thresholdAddWater (buttons (button1 i) (button2 i) s))"

definition satisfied_tick :: "input \<Rightarrow> state \<Rightarrow> bool" where
  "satisfied_tick i s \<longleftrightarrow>
     samples i s \<and>
     \<not> fless (moisture_percent (analogRead i))
         (thresholdAddWater (buttons (button1 i) (button2 i) s))"

text \<open>Every pass of a run is a dry sampling tick, or every pass a satisfied one.\<close>

fun all_dry :: "input list \<Rightarrow> state \<Rightarrow> bool" where
  "all_dry [] s = True"
| "all_dry (i # is) s = (dry_tick i s \<and> all_dry is (loop i s))"

fun all_satisfied :: "input list \<Rightarrow> state \<Rightarrow> bool" where
  "all_satisfied [] s = True"
| "all_satisfied (i # is) s = (satisfied_tick i s \<and> all_satisfied is (loop i s))"


text \<open>
  A concrete run: \<open>n\<close> passes one second apart, starting at second \<open>k + 1\<close>, no
  button pressed, the sensor reading \<open>raw\<close> each time.
\<close>

definition second :: "int \<Rightarrow> nat \<Rightarrow> input" where
  "second raw k = \<lparr> button1 = False, button2 = False, millis = of_nat (1000 * k),
                     analogRead = raw \<rparr>"

fun seconds :: "int \<Rightarrow> nat \<Rightarrow> nat \<Rightarrow> input list" where
  "seconds raw k 0 = []"
| "seconds raw k (Suc n) = second raw (Suc k) # seconds raw (Suc k) n"

text \<open>
  The place of the two counters in the watering cycle: \<open>m\<close> dry ticks counted, of which
  those after the 179th have run the pump.
\<close>

definition counters :: "nat \<Rightarrow> state \<Rightarrow> bool" where
  "counters m s \<longleftrightarrow>
     unat (dryTimeSum s) = 1000 * m \<and> unat (addWaterSum s) = 1000 * (m - 179)"

text \<open>
  The invariant of the counters and the relay along any run: the counters are at some
  place of the cycle, and the pump only runs in its last twenty places.
\<close>

definition inv :: "state \<Rightarrow> bool" where
  "inv s \<longleftrightarrow> (\<exists>m<200. counters m s \<and> (relay s \<longrightarrow> 180 \<le> m))"

text \<open>
  The threshold, the whole number \<open>t\<close> at the start of a run, is of magnitude below
  \<open>2 ^ 24\<close> before every pass of the run, counting the presses with exact integers. The
  length of the run is free: only the values the threshold takes are bounded.
\<close>

fun threshold_in_range :: "int \<Rightarrow> input list \<Rightarrow> bool" where
  "threshold_in_range t [] = True"
| "threshold_in_range t (i # is) =
     (\<bar>t\<bar> < 2 ^ 24 \<and>
      threshold_in_range
        (t + (if button1 i then 1 else 0) - (if button2 i then 1 else 0)) is)"

section \<open>Facts about rounding\<close>

lemmas float_eval = float_of_int_def fsub_def round32_def nearest_def ulp_def pow2_def
  round_half_even_def max_float_def expo.simps Let_def inf_of_sign_def

lemma fle_not_fless: "fle b a \<Longrightarrow> \<not> fless a b"
  by (cases a; cases b) simp_all

lemma pow2_powi: "pow2 e = 2 powi e"
proof (cases "0 \<le> e")
  case True
  then show ?thesis by (simp add: pow2_def power_int_def)
next
  case False
  then have "pow2 e = 1 / 2 ^ nat (- e)" by (simp add: pow2_def)
  also have "\<dots> = inverse 2 ^ nat (- e)"
    by (simp only: power_one_over [symmetric] inverse_eq_divide)
  also have "\<dots> = 2 powi e" using False by (simp add: power_int_def)
  finally show ?thesis .
qed

lemma pow2_pos [simp]: "0 < pow2 e"
  by (simp add: pow2_powi)

lemma pow2_add: "pow2 (a + b) = pow2 a * pow2 b"
  by (simp add: pow2_powi power_int_add)

lemma pow2_diff: "pow2 (a - b) = pow2 a / pow2 b"
  by (simp add: pow2_powi power_int_diff)

lemma pow2_less_iff [simp]: "pow2 a < pow2 b \<longleftrightarrow> a < b"
proof
  assume l: "pow2 a < pow2 b"
  show "a < b"
  proof (rule ccontr)
    assume "\<not> a < b"
    then have "b \<le> a" by simp
    then have "pow2 b \<le> pow2 a"
      unfolding pow2_powi by (intro power_int_increasing) simp_all
    then show False using l by simp
  qed
next
  assume "a < b"
  then show "pow2 a < pow2 b"
    unfolding pow2_powi by (intro power_int_strict_increasing) simp_all
qed

lemma pow2_le_iff [simp]: "pow2 a \<le> pow2 b \<longleftrightarrow> a \<le> b"
  using pow2_less_iff [of b a] by (simp only: not_less [symmetric])

lemma pow2_nat: "pow2 (int n) = 2 ^ n"
  by (simp add: pow2_def)

lemma pow2_Suc: "pow2 (e + 1) = 2 * pow2 e"
  by (simp add: pow2_powi power_int_add_1')

lemma expo_bounds: "0 < x \<Longrightarrow> pow2 (expo x) \<le> x \<and> x < pow2 (expo x + 1)"
proof (induction x rule: expo.induct)
  case (1 x)
  show ?case
  proof (cases "2 \<le> x")
    case True
    define e where "e = expo (x / 2)"
    have ih: "pow2 e \<le> x / 2 \<and> x / 2 < pow2 (e + 1)"
      using 1 True by (simp add: e_def)
    have ex: "expo x = e + 1" using True by (subst expo.simps) (simp add: e_def)
    have s1: "pow2 (e + 1) = 2 * pow2 e" and s2: "pow2 (e + 1 + 1) = 2 * pow2 (e + 1)"
      by (rule pow2_Suc)+
    have "pow2 (e + 1) \<le> x \<and> x < pow2 (e + 1 + 1)" using ih s1 s2 by linarith
    then show ?thesis by (simp only: ex)
  next
    case False
    show ?thesis
    proof (cases "x < 1")
      case True
      define e where "e = expo (x * 2)"
      have ih: "pow2 e \<le> x * 2 \<and> x * 2 < pow2 (e + 1)"
        using 1 False True by (simp add: e_def)
      have ex: "expo x = e - 1"
        using 1(3) False True by (subst expo.simps) (simp add: e_def)
      have s1: "pow2 (e - 1 + 1) = 2 * pow2 (e - 1)" by (rule pow2_Suc)
      have s2: "pow2 (e + 1) = 2 * pow2 e" by (rule pow2_Suc)
      have s3: "e - 1 + 1 = e" by simp
      have "pow2 (e - 1) \<le> x \<and> x < pow2 (e - 1 + 1)"
        using ih s1 s2 unfolding s3 by linarith
      then show ?thesis by (simp only: ex)
    next
      case nl: False
      have "expo x = 0" using 1(3) False nl by (subst expo.simps) simp
      then show ?thesis using False nl by (simp add: pow2_def)
    qed
  qed
qed

lemma expo_mono:
  assumes "0 < x" and "x \<le> y"
  shows "expo x \<le> expo y"
proof -
  have "0 < y" using assms by linarith
  then have "pow2 (expo x) < pow2 (expo y + 1)"
    using expo_bounds [OF assms(1)] expo_bounds [of y] assms(2) by linarith
  then show ?thesis by simp
qed

lemma rhe_int [simp]: "round_half_even (of_int n) = n"
  by (simp add: round_half_even_def)

lemma rhe_range: "\<lfloor>q\<rfloor> \<le> round_half_even q \<and> round_half_even q \<le> \<lfloor>q\<rfloor> + 1"
  by (simp add: round_half_even_def Let_def)

lemma rhe_same_floor:
  assumes "\<lfloor>a\<rfloor> = \<lfloor>b\<rfloor>" and "a \<le> b"
  shows "round_half_even a \<le> round_half_even b"
proof -
  have "a - of_int \<lfloor>a\<rfloor> \<le> b - of_int \<lfloor>a\<rfloor>" using assms(2) by simp
  then show ?thesis
    unfolding round_half_even_def Let_def assms(1) [symmetric] by auto
qed

lemma rhe_mono:
  assumes "a \<le> b"
  shows "round_half_even a \<le> round_half_even b"
proof (cases "\<lfloor>a\<rfloor> = \<lfloor>b\<rfloor>")
  case True
  then show ?thesis using assms by (rule rhe_same_floor)
next
  case False
  have "\<lfloor>a\<rfloor> \<le> \<lfloor>b\<rfloor>" using assms by (rule floor_mono)
  then have "\<lfloor>a\<rfloor> + 1 \<le> \<lfloor>b\<rfloor>" using False by simp
  then show ?thesis using rhe_range [of a] rhe_range [of b] by linarith
qed

lemma rhe_ge: "of_int n \<le> q \<Longrightarrow> n \<le> round_half_even q"
  using rhe_mono [of "of_int n" q] by simp

lemma rhe_le: "q \<le> of_int n \<Longrightarrow> round_half_even q \<le> n"
  using rhe_mono [of q "of_int n"] by simp

lemma rhe_neg: "round_half_even (- q) = - round_half_even q"
proof (cases "q = of_int \<lfloor>q\<rfloor>")
  case True
  then obtain n where q: "q = of_int n" ..
  have "round_half_even (of_int (- n)) = - n" by (rule rhe_int)
  then show ?thesis by (simp add: q)
next
  case False
  define f where "f = \<lfloor>q\<rfloor>"
  have "of_int \<lfloor>q\<rfloor> \<le> q" by (rule of_int_floor_le)
  moreover have "of_int \<lfloor>q\<rfloor> \<noteq> q" using False by (rule not_sym)
  ultimately have lo: "of_int f < q" unfolding f_def by (rule le_neq_trans)
  have hi: "q < of_int f + 1" by (simp add: f_def)
  have fl: "\<lfloor>- q\<rfloor> = - f - 1"
    by (rule floor_unique) (use lo hi in simp_all)
  show ?thesis
    unfolding round_half_even_def Let_def fl f_def [symmetric]
    using lo hi by auto
qed

lemma ulp_pos [simp]: "0 < ulp x"
  by (simp add: ulp_def)

lemma ulp_nonneg [simp]: "0 \<le> ulp x"
  using ulp_pos [of x] by (rule less_imp_le)

lemma ulp_neg [simp]: "ulp (- x) = ulp x"
  by (simp add: ulp_def)

lemma nearest_0 [simp]: "nearest 0 = 0"
  using rhe_int [of 0] by (simp add: nearest_def del: rhe_int)

lemma nearest_neg: "nearest (- x) = - nearest x"
  by (simp add: nearest_def rhe_neg)

lemma nearest_nonneg: "0 \<le> x \<Longrightarrow> 0 \<le> nearest x"
proof -
  assume "0 \<le> x"
  then have "of_int 0 \<le> x / ulp x" by simp
  then have "0 \<le> round_half_even (x / ulp x)" by (rule rhe_ge)
  then show ?thesis by (simp add: nearest_def)
qed

text \<open>The exponent that fixes the spacing, for a positive number.\<close>

lemma ulp_times_2_24:
  "ulp x * 2 ^ 24 = pow2 (max (expo \<bar>x\<bar>) (- 126) + 1)"
proof -
  define E where "E = max (expo \<bar>x\<bar>) (- 126)"
  have a: "E - 23 + 24 = E + 1" by simp
  have p: "pow2 24 = 2 ^ 24" by (simp add: pow2_def)
  have "ulp x * 2 ^ 24 = pow2 (E - 23) * pow2 24" by (simp only: ulp_def E_def p)
  also have "\<dots> = pow2 (E - 23 + 24)" by (rule pow2_add [symmetric])
  also have "\<dots> = pow2 (E + 1)" by (simp only: a)
  finally show ?thesis by (simp only: E_def)
qed

lemma ulp_times_2_23:
  "ulp x * 2 ^ 23 = pow2 (max (expo \<bar>x\<bar>) (- 126))"
proof -
  define E where "E = max (expo \<bar>x\<bar>) (- 126)"
  have a: "E - 23 + 23 = E" by simp
  have p: "pow2 23 = 2 ^ 23" by (simp add: pow2_def)
  have "ulp x * 2 ^ 23 = pow2 (E - 23) * pow2 23" by (simp only: ulp_def E_def p)
  also have "\<dots> = pow2 (E - 23 + 23)" by (rule pow2_add [symmetric])
  also have "\<dots> = pow2 E" by (simp only: a)
  finally show ?thesis by (simp only: E_def)
qed

lemma of_int_rhe_le:
  "round_half_even q \<le> 2 ^ n \<Longrightarrow> of_int (round_half_even q) \<le> (2 ^ n :: real)"
  by (metis of_int_le_iff of_int_numeral of_int_power)

lemma of_int_rhe_ge:
  "2 ^ n \<le> round_half_even q \<Longrightarrow> (2 ^ n :: real) \<le> of_int (round_half_even q)"
  by (metis of_int_le_iff of_int_numeral of_int_power)

lemma nearest_upper:
  assumes "0 < x"
  shows "nearest x \<le> pow2 (max (expo x) (- 126) + 1)"
proof -
  have ax: "\<bar>x\<bar> = x" using assms by simp
  note u = ulp_times_2_24 [of x, unfolded ax]
  have "x < pow2 (expo x + 1)" using expo_bounds [OF assms] by simp
  also have "\<dots> \<le> pow2 (max (expo x) (- 126) + 1)" by simp
  finally have "x < ulp x * 2 ^ 24" by (simp only: u)
  then have "x / ulp x < 2 ^ 24" by (simp add: pos_divide_less_eq mult.commute)
  then have "x / ulp x \<le> of_int (2 ^ 24)" by simp
  then have "round_half_even (x / ulp x) \<le> 2 ^ 24" by (rule rhe_le)
  then have "of_int (round_half_even (x / ulp x)) \<le> (2 ^ 24 :: real)" by (rule of_int_rhe_le)
  then have "of_int (round_half_even (x / ulp x)) * ulp x \<le> 2 ^ 24 * ulp x"
    by (rule mult_right_mono) simp
  then have "nearest x \<le> ulp x * 2 ^ 24" by (simp only: nearest_def mult.commute)
  then show ?thesis by (simp only: u)
qed

lemma nearest_lower:
  assumes "0 < x" and "- 126 \<le> expo x"
  shows "pow2 (expo x) \<le> nearest x"
proof -
  have ax: "\<bar>x\<bar> = x" using assms by simp
  have m: "max (expo x) (- 126) = expo x" using assms by simp
  note u = ulp_times_2_23 [of x, unfolded ax m]
  have "pow2 (expo x) \<le> x" using expo_bounds [OF assms(1)] by simp
  then have "ulp x * 2 ^ 23 \<le> x" by (simp only: u)
  then have "2 ^ 23 \<le> x / ulp x" by (simp add: pos_le_divide_eq mult.commute)
  then have "of_int (2 ^ 23) \<le> x / ulp x" by simp
  then have "2 ^ 23 \<le> round_half_even (x / ulp x)" by (rule rhe_ge)
  then have "(2 ^ 23 :: real) \<le> of_int (round_half_even (x / ulp x))" by (rule of_int_rhe_ge)
  then have "2 ^ 23 * ulp x \<le> of_int (round_half_even (x / ulp x)) * ulp x"
    by (rule mult_right_mono) simp
  then have "ulp x * 2 ^ 23 \<le> nearest x" by (simp only: nearest_def mult.commute)
  then show ?thesis by (simp only: u)
qed

lemma nearest_mono_pos:
  assumes "0 < x" and "x \<le> y"
  shows "nearest x \<le> nearest y"
proof -
  have y: "0 < y" using assms by linarith
  have e: "expo x \<le> expo y" using assms by (rule expo_mono)
  show ?thesis
  proof (cases "max (expo x) (- 126) = max (expo y) (- 126)")
    case True
    then have u: "ulp x = ulp y" using assms(1) y by (simp add: ulp_def)
    have "x / ulp y \<le> y / ulp y" using assms(2) by (rule divide_right_mono) simp
    then have "round_half_even (x / ulp y) \<le> round_half_even (y / ulp y)" by (rule rhe_mono)
    then show ?thesis unfolding nearest_def u by (intro mult_right_mono) simp_all
  next
    case False
    then have lt: "max (expo x) (- 126) < expo y" and big: "- 126 \<le> expo y"
      using e by (simp_all add: max_def split: if_splits)
    have "nearest x \<le> pow2 (max (expo x) (- 126) + 1)" using assms(1) by (rule nearest_upper)
    also have "\<dots> \<le> pow2 (expo y)"
    proof -
      have "max (expo x) (- 126) + 1 \<le> expo y" using lt by linarith
      then show ?thesis by (simp only: pow2_le_iff)
    qed
    also have "\<dots> \<le> nearest y" using y big by (rule nearest_lower)
    finally show ?thesis .
  qed
qed

lemma nearest_mono:
  assumes "x \<le> y"
  shows "nearest x \<le> nearest y"
proof -
  consider "0 < x" | "x \<le> 0" "0 \<le> y" | "y < 0" by linarith
  then show ?thesis
  proof cases
    case 1
    then show ?thesis using assms by (rule nearest_mono_pos)
  next
    case 2
    have "0 \<le> nearest (- x)" using 2(1) by (intro nearest_nonneg) simp
    then have "nearest x \<le> 0" by (simp add: nearest_neg)
    moreover have "0 \<le> nearest y" using 2(2) by (rule nearest_nonneg)
    ultimately show ?thesis by linarith
  next
    case 3
    have "nearest (- y) \<le> nearest (- x)" using 3 assms by (intro nearest_mono_pos) simp_all
    then show ?thesis by (simp add: nearest_neg)
  qed
qed

lemma ulp_nonzero [simp]: "ulp x \<noteq> 0"
  using ulp_pos [of x] by linarith

lemma nearest_exact: "x / ulp x = of_int m \<Longrightarrow> nearest x = x"
proof -
  assume a: "x / ulp x = of_int m"
  have "nearest x = of_int m * ulp x" by (simp add: nearest_def a)
  also have "\<dots> = x / ulp x * ulp x" by (simp only: a)
  also have "\<dots> = x" using ulp_pos [of x] by simp
  finally show ?thesis .
qed

lemma expo_1: "expo 1 = 0"
  by (simp add: expo.simps)

lemma ulp_small_int:
  assumes "1 \<le> x" and "x < 2 ^ 24"
  shows "\<exists>n. ulp x = 1 / 2 ^ n"
proof -
  have pos: "0 < x" using assms(1) by linarith
  have lo: "0 \<le> expo x" using expo_mono [of 1 x] assms(1) by (simp add: expo_1)
  have "pow2 (expo x) < pow2 24"
    using expo_bounds [OF pos] assms(2) pow2_nat [of 24] by simp
  then have hi: "expo x \<le> 23" by simp
  have "ulp x = pow2 (expo x - 23)" using lo pos by (simp add: ulp_def)
  also have "\<dots> = 1 / 2 ^ nat (23 - expo x)"
  proof (cases "expo x = 23")
    case True
    then show ?thesis by (simp add: pow2_def)
  next
    case False
    then have "\<not> 0 \<le> expo x - 23" using hi by simp
    then show ?thesis by (simp add: pow2_def)
  qed
  finally show ?thesis ..
qed

lemma nearest_2_24: "nearest (2 ^ 24) = 2 ^ 24"
  by (simp add: float_eval)

lemma nearest_pos_int:
  assumes "0 < k" and "k \<le> 2 ^ 24"
  shows "nearest (of_int k) = of_int k"
proof (cases "k = 2 ^ 24")
  case True
  then show ?thesis using nearest_2_24 by simp
next
  case False
  then have "k < 2 ^ 24" using assms(2) by simp
  then have "(of_int k :: real) < of_int (2 ^ 24)" by (simp only: of_int_less_iff)
  then have lt: "(of_int k :: real) < 2 ^ 24" by simp
  have "(of_int 1 :: real) \<le> of_int k" using assms(1) by (simp only: of_int_le_iff)
  then have ge: "(1 :: real) \<le> of_int k" by simp
  from ulp_small_int [OF ge lt] obtain n where u: "ulp (of_int k) = 1 / 2 ^ n" ..
  have "of_int k / ulp (of_int k) = (of_int (k * 2 ^ n) :: real)" by (simp add: u)
  then show ?thesis by (rule nearest_exact)
qed

lemma nearest_int:
  assumes "\<bar>k\<bar> \<le> 2 ^ 24"
  shows "nearest (of_int k) = of_int k"
proof -
  consider "0 < k" | "k = 0" | "k < 0" by linarith
  then show ?thesis
  proof cases
    case 1
    then show ?thesis using assms by (intro nearest_pos_int) simp_all
  next
    case 2
    then show ?thesis by simp
  next
    case 3
    then have "nearest (of_int (- k)) = of_int (- k)" using assms by (intro nearest_pos_int) simp_all
    then show ?thesis by (simp add: nearest_neg)
  qed
qed

lemma round32_int:
  assumes "\<bar>k\<bar> \<le> 2 ^ 24"
  shows "round32 (of_int k) = Finite (of_int k)"
proof -
  have "(of_int \<bar>k\<bar> :: real) \<le> of_int (2 ^ 24)" using assms by (simp only: of_int_le_iff)
  then have "\<bar>of_int k :: real\<bar> \<le> 2 ^ 24" by simp
  then have "- max_float \<le> of_int k \<and> (of_int k :: real) \<le> max_float"
    by (simp add: max_float_def abs_le_iff)
  then show ?thesis by (simp add: round32_def nearest_int [OF assms] not_less)
qed

lemma round32_not_NaN [simp]: "round32 x \<noteq> NaN"
  by (simp add: round32_def Let_def)

lemma round32_mono:
  assumes "x \<le> y"
  shows "fle (round32 x) (round32 y)"
  using nearest_mono [OF assms] by (simp add: round32_def Let_def max_float_def)

lemma fle_refl [simp]: "a \<noteq> NaN \<Longrightarrow> fle a a"
  by (cases a) simp_all

lemma fle_PlusInf [simp]: "a \<noteq> NaN \<Longrightarrow> fle a PlusInf"
  by (cases a) simp_all

lemma fle_MinusInf [simp]: "a \<noteq> NaN \<Longrightarrow> fle MinusInf a"
  by (cases a) simp_all

lemma fle_NaN [simp]: "\<not> fle a NaN" "\<not> fle NaN a"
  by (cases a; simp)+

lemma float_of_int_mono: "i \<le> j \<Longrightarrow> fle (float_of_int i) (float_of_int j)"
  by (simp add: float_of_int_def round32_mono)

lemma fsub_mono_left:
  "fle a b \<Longrightarrow> fle (fsub a (Finite c)) (fsub b (Finite c))"
  by (cases a; cases b) (simp_all add: fsub_def round32_mono)

lemma fsub_anti_right:
  "fle a b \<Longrightarrow> fle (fsub (Finite c) b) (fsub (Finite c) a)"
  by (cases a; cases b) (simp_all add: fsub_def round32_mono)

lemma fdiv_mono_left:
  "fle a b \<Longrightarrow> 0 < c \<Longrightarrow> fle (fdiv a (Finite c)) (fdiv b (Finite c))"
  by (cases a; cases b) (simp_all add: round32_mono divide_right_mono)

lemma fmul_mono_left:
  "fle a b \<Longrightarrow> 0 < c \<Longrightarrow> fle (fmul a (Finite c)) (fmul b (Finite c))"
  by (cases a; cases b) (simp_all add: round32_mono mult_right_mono inf_of_sign_def)

lemma rhe_error: "\<bar>of_int (round_half_even q) - q\<bar> \<le> 1 / 2"
proof -
  have "of_int \<lfloor>q\<rfloor> \<le> q" and "q < of_int \<lfloor>q\<rfloor> + 1" by linarith+
  then show ?thesis by (auto simp add: round_half_even_def Let_def)
qed

lemma nearest_error: "\<bar>nearest x - x\<bar> \<le> ulp x / 2"
proof -
  have "nearest x - x = (of_int (round_half_even (x / ulp x)) - x / ulp x) * ulp x"
    by (simp add: nearest_def left_diff_distrib)
  then have "\<bar>nearest x - x\<bar> = \<bar>of_int (round_half_even (x / ulp x)) - x / ulp x\<bar> * ulp x"
    by (simp add: abs_mult)
  also have "\<dots> \<le> 1 / 2 * ulp x"
    using rhe_error [of "x / ulp x"] by (rule mult_right_mono) simp
  finally show ?thesis by simp
qed

lemma ulp_le:
  assumes "\<bar>x\<bar> < pow2 (k + 1)" and "0 \<le> k"
  shows "ulp x \<le> pow2 (k - 23)"
proof -
  have "expo \<bar>x\<bar> \<le> k"
  proof (cases "x = 0")
    case True
    then show ?thesis using assms(2) by (simp add: expo.simps)
  next
    case False
    then have "0 < \<bar>x\<bar>" by simp
    then have "pow2 (expo \<bar>x\<bar>) < pow2 (k + 1)"
      using expo_bounds [of "\<bar>x\<bar>"] assms(1) by linarith
    then show ?thesis by simp
  qed
  then have "max (expo \<bar>x\<bar>) (- 126) - 23 \<le> k - 23" using assms(2) by simp
  then show ?thesis unfolding ulp_def by (simp only: pow2_le_iff)
qed

lemma nearest_error_below:
  assumes "\<bar>x\<bar> < 2 ^ Suc n"
  shows "\<bar>nearest x - x\<bar> \<le> 2 ^ n / 2 ^ 24"
proof -
  have "\<bar>x\<bar> < pow2 (int n + 1)" using assms pow2_nat [of "Suc n"] by (simp add: add.commute)
  then have "ulp x \<le> pow2 (int n - 23)" by (rule ulp_le) simp
  also have "\<dots> = 2 ^ n / 2 ^ 23" using pow2_diff [of "int n" 23] pow2_nat [of n] pow2_nat [of 23]
    by simp
  finally show ?thesis using nearest_error [of x] by simp
qed

lemma round32_small:
  assumes "\<bar>x\<bar> \<le> 2 ^ 24"
  shows "round32 x = Finite (nearest x)"
proof -
  have hi: "nearest (of_int (2 ^ 24)) = of_int (2 ^ 24)" by (rule nearest_int) simp
  have lo: "nearest (of_int (- (2 ^ 24))) = of_int (- (2 ^ 24))" by (rule nearest_int) simp
  have "nearest x \<le> nearest (of_int (2 ^ 24))" using assms by (intro nearest_mono) simp
  moreover have "nearest (of_int (- (2 ^ 24))) \<le> nearest x"
    using assms by (intro nearest_mono) simp
  ultimately have "- (2 ^ 24) \<le> nearest x \<and> nearest x \<le> 2 ^ 24"
    unfolding hi lo by simp
  then have "- max_float \<le> nearest x \<and> nearest x \<le> max_float"
    by (simp add: max_float_def)
  then show ?thesis by (simp add: round32_def Let_def not_less)
qed

section \<open>Facts about the conversion\<close>

lemma moisture_500: "moisture_percent 500 = Finite (168041 / 8192)"
  by (simp add: moisture_percent_def percent_of_def AirValue_def WaterValue_def float_eval)

lemma moisture_100: "moisture_percent 100 = Finite (2912711 / 32768)"
  by (simp add: moisture_percent_def percent_of_def AirValue_def WaterValue_def float_eval)

lemma dry_500: "fless (moisture_percent 500) (Finite 37)"
  by (simp add: moisture_500)

lemma satisfied_100: "fle (Finite 37) (moisture_percent 100)"
  by (simp add: moisture_100)

lemma calibration_span: "fsub AirValue WaterValue = Finite 585"
  by (simp add: AirValue_def WaterValue_def float_eval)

lemma float_100: "float_of_int 100 = Finite 100"
  by (simp add: float_eval)

lemma float_1: "float_of_int 1 = Finite 1"
  by (simp add: float_eval)

lemma moisture_percent_formula:
  "moisture_percent raw =
     fsub (Finite 100)
       (fmul (fdiv (fsub (float_of_int raw) (Finite 35)) (Finite 585)) (Finite 100))"
  using calibration_span
  by (simp add: moisture_percent_def percent_of_def float_100 WaterValue_def)

lemma moisture_percent_anti:
  assumes "r1 \<le> r2"
  shows "fle (moisture_percent r2) (moisture_percent r1)"
  unfolding moisture_percent_formula
  by (intro fsub_anti_right fmul_mono_left fdiv_mono_left fsub_mono_left
      float_of_int_mono assms) simp_all

lemma moisture_620: "moisture_percent 620 = Finite 0"
  by (simp add: moisture_percent_formula float_eval)

lemma moisture_35: "moisture_percent 35 = Finite 100"
  by (simp add: moisture_percent_formula float_eval)

lemma fadd_one:
  assumes "\<bar>t + 1\<bar> \<le> 2 ^ 24"
  shows "fadd (Finite (of_int t)) (float_of_int 1) = Finite (of_int (t + 1))"
  using round32_int [OF assms] by (simp add: float_1)

lemma fsub_one:
  assumes "\<bar>t - 1\<bar> \<le> 2 ^ 24"
  shows "fsub (Finite (of_int t)) (float_of_int 1) = Finite (of_int (t - 1))"
  using round32_int [OF assms] by (simp add: float_1 fsub_def)

lemma moisture_percent_accuracy:
  assumes "0 \<le> raw" and "raw \<le> 1023"
  shows "\<exists>p. moisture_percent raw = Finite p \<and>
             \<bar>p - (100 - (of_int raw - 35) / 585 * 100)\<bar> \<le> 1 / 50000"
proof -
  define q :: real where "q = (of_int raw - 35) / 585"
  define c where "c = nearest q"
  define d where "d = nearest (c * 100)"
  define e where "e = nearest (100 - d)"
  have r: "(0 :: real) \<le> of_int raw" "(of_int raw :: real) \<le> 1023"
    using assms by simp_all
  have q_lo: "- 35 / 585 \<le> q" and q_hi: "q \<le> 988 / 585"
    using r by (simp_all add: q_def divide_right_mono)
  have "\<bar>q\<bar> < 2" using q_lo q_hi by linarith
  then have "\<bar>q\<bar> < 2 ^ Suc 0" by simp
  from nearest_error_below [OF this]
  have c_err: "\<bar>c - q\<bar> \<le> 1 / 16777216" by (simp add: c_def)
  have c_lo: "- 6 / 100 \<le> c" and c_hi: "c \<le> 169 / 100" using c_err q_lo q_hi by linarith+
  have "\<bar>c * 100\<bar> < 256" using c_lo c_hi by linarith
  then have "\<bar>c * 100\<bar> < 2 ^ Suc 7" by simp
  from nearest_error_below [OF this]
  have d_err: "\<bar>d - c * 100\<bar> \<le> 128 / 16777216" by (simp add: d_def)
  have d_lo: "- 7 \<le> d" and d_hi: "d \<le> 170" using d_err c_lo c_hi by linarith+
  have "\<bar>100 - d\<bar> < 128" using d_lo d_hi by linarith
  then have "\<bar>100 - d\<bar> < 2 ^ Suc 6" by simp
  from nearest_error_below [OF this]
  have e_err: "\<bar>e - (100 - d)\<bar> \<le> 64 / 16777216" by (simp add: e_def)
  have f1: "float_of_int raw = Finite (of_int raw)"
    unfolding float_of_int_def using assms by (intro round32_int) simp
  have f2: "fsub (Finite (of_int raw)) (Finite 35) = Finite (of_int raw - 35)"
    using round32_int [of "raw - 35"] assms by (simp add: fsub_def)
  have "\<bar>q\<bar> \<le> 2 ^ 24" using q_lo q_hi by simp
  then have f3: "fdiv (Finite (of_int raw - 35)) (Finite 585) = Finite c"
    using round32_small [of q] by (simp add: q_def c_def)
  have "\<bar>c * 100\<bar> \<le> 2 ^ 24" using c_lo c_hi by simp
  then have f4: "fmul (Finite c) (Finite 100) = Finite d"
    using round32_small [of "c * 100"] by (simp add: d_def)
  have "\<bar>100 - d\<bar> \<le> 2 ^ 24" using d_lo d_hi by simp
  then have f5: "fsub (Finite 100) (Finite d) = Finite e"
    using round32_small [of "100 - d"] by (simp add: e_def fsub_def)
  have m: "moisture_percent raw = Finite e"
    by (simp only: moisture_percent_formula f1 f2 f3 f4 f5)
  have "\<bar>e - (100 - q * 100)\<bar> \<le> 1 / 50000"
    using e_err d_err c_err by linarith
  then show ?thesis using m by (simp add: q_def)
qed

section \<open>Facts about one pass\<close>

lemma unat_consts: "unat dryTime = 180000" "unat addWater = 20000" "unat intervalSense = 1000"
  by (simp_all add: dryTime_def addWater_def intervalSense_def)

lemma unat_add_interval:
  fixes x :: "32 word"
  assumes "unat x \<le> 4000000000"
  shows "unat (x + intervalSense) = unat x + 1000"
proof -
  have "unat x + unat intervalSense < 2 ^ LENGTH(32)"
    using assms by (simp add: unat_consts)
  then have "unat (x + intervalSense) = unat x + unat intervalSense"
    by (simp only: unat_add_lem)
  then show ?thesis by (simp add: unat_consts)
qed

lemma irrigate_satisfied:
  "\<not> fless (soilMoisturePercent s) (thresholdAddWater s) \<Longrightarrow> irrigate s = s\<lparr>relay := False\<rparr>"
  by (simp add: irrigate_def)

lemma irrigate_dry:
  assumes dry: "fless (soilMoisturePercent s) (thresholdAddWater s)"
    and d: "unat (dryTimeSum s) \<le> 4000000000"
  shows "irrigate s =
    (if 179000 \<le> unat (dryTimeSum s) then
       if unat (addWaterSum s) < 20000 then
         s\<lparr>dryTimeSum := dryTimeSum s + intervalSense,
           addWaterSum := addWaterSum s + intervalSense, relay := True\<rparr>
       else s\<lparr>dryTimeSum := 0, addWaterSum := 0, relay := False\<rparr>
     else s\<lparr>dryTimeSum := dryTimeSum s + intervalSense,
            timeAddH20 := dryTime - (dryTimeSum s + intervalSense)\<rparr>)"
proof -
  have le: "dryTime \<le> dryTimeSum s + intervalSense \<longleftrightarrow> 179000 \<le> unat (dryTimeSum s)"
    using unat_add_interval [OF d] by (simp add: word_le_nat_alt unat_consts)
  have lt: "addWaterSum s < addWater \<longleftrightarrow> unat (addWaterSum s) < 20000"
    by (simp add: word_less_nat_alt unat_consts)
  show ?thesis
    using dry by (simp add: irrigate_def Let_def le lt)
qed

lemma irrigate_fields [simp]:
  "thresholdAddWater (irrigate s) = thresholdAddWater s"
  "soilMoisturePercent (irrigate s) = soilMoisturePercent s"
  "previousMillisSense (irrigate s) = previousMillisSense s"
  by (simp_all add: irrigate_def Let_def)

lemma irrigate_dry_counters:
  assumes dry: "fless (soilMoisturePercent s) (thresholdAddWater s)"
    and c: "counters m s" and m: "m < 200"
  shows "counters (Suc m mod 200) (irrigate s)"
    and "relay (irrigate s) = (if m < 179 then relay s else m < 199)"
proof -
  have d: "unat (dryTimeSum s) = 1000 * m" and a: "unat (addWaterSum s) = 1000 * (m - 179)"
    using c by (simp_all add: counters_def)
  have small: "unat (dryTimeSum s) \<le> 4000000000" using d m by simp
  have small_a: "unat (addWaterSum s) \<le> 4000000000" using a m by simp
  note st = irrigate_dry [OF dry small]
  have da: "unat (dryTimeSum s + intervalSense) = 1000 * m + 1000"
    using unat_add_interval [OF small] d by simp
  have aa: "unat (addWaterSum s + intervalSense) = 1000 * (m - 179) + 1000"
    using unat_add_interval [OF small_a] a by simp
  consider "m < 179" | "179 \<le> m" "m < 199" | "m = 199" using m by linarith
  then show "counters (Suc m mod 200) (irrigate s)"
  proof cases
    case 1
    then show ?thesis using d a da by (simp add: st counters_def)
  next
    case 2
    then show ?thesis using d a da aa by (auto simp add: st counters_def)
  next
    case 3
    then show ?thesis using d a by (simp add: st counters_def)
  qed
  show "relay (irrigate s) = (if m < 179 then relay s else m < 199)"
    using d a m by (auto simp add: st)
qed

lemma buttons_fields [simp]:
  "dryTimeSum (buttons b1 b2 s) = dryTimeSum s"
  "addWaterSum (buttons b1 b2 s) = addWaterSum s"
  "relay (buttons b1 b2 s) = relay s"
  "previousMillisSense (buttons b1 b2 s) = previousMillisSense s"
  by (simp_all add: buttons_def Let_def)

lemma buttons_idle [simp]: "buttons False False s = s"
  by (simp add: buttons_def)

lemma loop_samples:
  "samples i s \<Longrightarrow>
   loop i s = irrigate ((buttons (button1 i) (button2 i) s)
     \<lparr>previousMillisSense := millis i, soilMoistureValue := analogRead i,
      soilMoisturePercent := moisture_percent (analogRead i)\<rparr>)"
  by (simp add: loop_def samples_def sense_def sense_with_def moisture_percent_def Let_def)

lemma loop_idle:
  "\<not> samples i s \<Longrightarrow> loop i s = buttons (button1 i) (button2 i) s"
  by (simp add: loop_def samples_def Let_def)

lemma loop_threshold:
  "thresholdAddWater (loop i s) = thresholdAddWater (buttons (button1 i) (button2 i) s)"
  by (simp add: loop_def sense_def sense_with_def irrigate_def Let_def)

lemma loop_satisfied:
  assumes "satisfied_tick i s"
  shows "dryTimeSum (loop i s) = dryTimeSum s" "addWaterSum (loop i s) = addWaterSum s"
    "relay (loop i s) = False"
  using assms by (simp_all add: satisfied_tick_def loop_samples irrigate_satisfied)

lemma loop_dry:
  assumes t: "dry_tick i s" and c: "counters m s" and m: "m < 200"
  shows "counters (Suc m mod 200) (loop i s)"
    and "relay (loop i s) = (if m < 179 then relay s else m < 199)"
proof -
  let ?s = "(buttons (button1 i) (button2 i) s)
     \<lparr>previousMillisSense := millis i, soilMoistureValue := analogRead i,
      soilMoisturePercent := moisture_percent (analogRead i)\<rparr>"
  have l: "loop i s = irrigate ?s" using t by (simp add: dry_tick_def loop_samples)
  have dry: "fless (soilMoisturePercent ?s) (thresholdAddWater ?s)"
    using t by (simp add: dry_tick_def)
  have c': "counters m ?s" using c by (simp add: counters_def)
  show "counters (Suc m mod 200) (loop i s)"
    using irrigate_dry_counters(1) [OF dry c' m] by (simp add: l)
  show "relay (loop i s) = (if m < 179 then relay s else m < 199)"
    using irrigate_dry_counters(2) [OF dry c' m] by (simp add: l)
qed

lemma loop_cases: "dry_tick i s \<or> satisfied_tick i s \<or> \<not> samples i s"
  by (auto simp add: dry_tick_def satisfied_tick_def)

lemma samples_second:
  "previousMillisSense s = of_nat (1000 * k) \<Longrightarrow> samples (second raw (Suc k)) s"
  by (simp add: samples_def second_def intervalSense_def)

lemma loop_second:
  assumes "previousMillisSense s = of_nat (1000 * k)"
  shows "previousMillisSense (loop (second raw (Suc k)) s) = of_nat (1000 * Suc k)"
    and "thresholdAddWater (loop (second raw (Suc k)) s) = thresholdAddWater s"
  using samples_second [OF assms, of raw]
  by (simp_all add: loop_samples) (simp_all add: second_def)

lemma counters_0: "counters 0 s \<longleftrightarrow> dryTimeSum s = 0 \<and> addWaterSum s = 0"
  by (simp add: counters_def unat_eq_0)

lemma loop_dry_confirming:
  assumes t: "dry_tick i s" and d: "unat (dryTimeSum s) + 1000 < 180000"
  shows "dryTimeSum (loop i s) = dryTimeSum s + intervalSense"
    and "addWaterSum (loop i s) = addWaterSum s" and "relay (loop i s) = relay s"
proof -
  let ?s = "(buttons (button1 i) (button2 i) s)
     \<lparr>previousMillisSense := millis i, soilMoistureValue := analogRead i,
      soilMoisturePercent := moisture_percent (analogRead i)\<rparr>"
  have l: "loop i s = irrigate ?s" using t by (simp add: dry_tick_def loop_samples)
  have dry: "fless (soilMoisturePercent ?s) (thresholdAddWater ?s)"
    using t by (simp add: dry_tick_def)
  have small: "unat (dryTimeSum ?s) \<le> 4000000000" using d by simp
  show "dryTimeSum (loop i s) = dryTimeSum s + intervalSense"
    and "addWaterSum (loop i s) = addWaterSum s" and "relay (loop i s) = relay s"
    using d by (simp_all add: l irrigate_dry [OF dry small])
qed

lemma dry_tick_second:
  "dry_tick (second raw k) s \<longleftrightarrow>
     samples (second raw k) s \<and> fless (moisture_percent raw) (thresholdAddWater s)"
  by (simp add: dry_tick_def second_def)

lemma satisfied_tick_second:
  "satisfied_tick (second raw k) s \<longleftrightarrow>
     samples (second raw k) s \<and> \<not> fless (moisture_percent raw) (thresholdAddWater s)"
  by (simp add: satisfied_tick_def second_def)

lemma counters_eq:
  "counters m s \<Longrightarrow> counters m t \<Longrightarrow> dryTimeSum s = dryTimeSum t \<and> addWaterSum s = addWaterSum t"
  by (simp add: counters_def word_unat_eq_iff)

lemma buttons_threshold:
  assumes "thresholdAddWater s = Finite (of_int t)" and "\<bar>t\<bar> < 2 ^ 24"
  shows "thresholdAddWater (buttons b1 b2 s) =
           Finite (of_int (t + (if b1 then 1 else 0) - (if b2 then 1 else 0)))"
proof -
  have up: "fadd (Finite (of_int t)) (float_of_int 1) = Finite (of_int (t + 1))"
    using assms(2) by (intro fadd_one) simp
  have d1: "fsub (Finite (of_int t)) (float_of_int 1) = Finite (of_int (t - 1))"
    using assms(2) by (intro fsub_one) simp
  have d2: "fsub (Finite (of_int (t + 1))) (float_of_int 1) = Finite (of_int (t + 1 - 1))"
    using assms(2) by (intro fsub_one) simp
  have g: "thresholdAddWater (buttons c1 c2 s) =
      (if c2 then fsub (if c1 then fadd (Finite (of_int t)) (float_of_int 1)
                       else Finite (of_int t)) (float_of_int 1)
       else if c1 then fadd (Finite (of_int t)) (float_of_int 1) else Finite (of_int t))"
    for c1 c2
    using assms(1) by (simp add: buttons_def Let_def)
  have tt: "thresholdAddWater (buttons True True s) = Finite (of_int (t + 1 - 1))"
    by (simp only: g if_True up d2)
  have tf: "thresholdAddWater (buttons True False s) = Finite (of_int (t + 1))"
    by (simp only: g if_True if_False up)
  have ft: "thresholdAddWater (buttons False True s) = Finite (of_int (t - 1))"
    by (simp only: g if_True if_False d1)
  show ?thesis
    using assms(1) by (cases b1; cases b2) (simp_all add: tt tf ft)
qed

section \<open>Facts about runs\<close>

lemma run_append: "run (xs @ ys) s = run ys (run xs s)"
  by (induction xs arbitrary: s) simp_all

lemma mod_cycle: "(Suc m mod 200 + n) mod 200 = (m + Suc n) mod 200"
  by (metis add_Suc add_Suc_right mod_Suc_eq mod_add_left_eq)

text \<open>All-dry runs walk through the cycle of 200 ticks.\<close>

lemma run_all_dry:
  assumes "all_dry is s" and "counters m s" and "m < 200" and "relay s \<longleftrightarrow> 180 \<le> m"
  shows "counters ((m + length is) mod 200) (run is s) \<and>
         (relay (run is s) \<longleftrightarrow> 180 \<le> (m + length is) mod 200)"
  using assms
proof (induction "is" arbitrary: s m)
  case Nil
  then show ?case by simp
next
  case (Cons i "is")
  from Cons.prems have t: "dry_tick i s" and rest: "all_dry is (loop i s)" by simp_all
  have c: "counters (Suc m mod 200) (loop i s)"
    using loop_dry(1) [OF t Cons.prems(2) Cons.prems(3)] .
  have r: "relay (loop i s) \<longleftrightarrow> 180 \<le> Suc m mod 200"
    using loop_dry(2) [OF t Cons.prems(2) Cons.prems(3)] Cons.prems(3,4)
    by (auto simp add: mod_Suc)
  have "counters ((Suc m mod 200 + length is) mod 200) (run is (loop i s)) \<and>
        (relay (run is (loop i s)) \<longleftrightarrow> 180 \<le> (Suc m mod 200 + length is) mod 200)"
    by (rule Cons.IH [OF rest c _ r]) simp
  moreover have "(Suc m mod 200 + length is) mod 200 = (m + length (i # is)) mod 200"
    by (simp add: mod_cycle)
  ultimately show ?case by simp
qed

lemma inv_init: "inv init"
  by (auto simp add: inv_def counters_def init_def intro: exI [of _ 0])

lemma inv_loop:
  assumes "inv s"
  shows "inv (loop i s)"
proof -
  from assms obtain m where m: "m < 200" and c: "counters m s" and r: "relay s \<longrightarrow> 180 \<le> m"
    by (auto simp add: inv_def)
  from loop_cases [of i s] show ?thesis
  proof (elim disjE)
    assume t: "dry_tick i s"
    have "counters (Suc m mod 200) (loop i s)" using loop_dry(1) [OF t c m] .
    moreover have "relay (loop i s) \<longrightarrow> 180 \<le> Suc m mod 200"
      using loop_dry(2) [OF t c m] r m by (auto simp add: mod_Suc)
    moreover have "Suc m mod 200 < 200" by simp
    ultimately show ?thesis unfolding inv_def by blast
  next
    assume t: "satisfied_tick i s"
    have "counters m (loop i s)"
      using c loop_satisfied [OF t] by (simp add: counters_def)
    moreover have "\<not> relay (loop i s)" using loop_satisfied [OF t] by simp
    ultimately show ?thesis using m unfolding inv_def by blast
  next
    assume t: "\<not> samples i s"
    have "counters m (loop i s)" using c by (simp add: loop_idle [OF t] counters_def)
    moreover have "relay (loop i s) = relay s" by (simp add: loop_idle [OF t])
    ultimately show ?thesis using m r unfolding inv_def by blast
  qed
qed

lemma inv_run: "inv s \<Longrightarrow> inv (run is s)"
  by (induction "is" arbitrary: s) (simp_all add: inv_loop)

lemma irrigate_pow_dry:
  assumes "fless (soilMoisturePercent s) (thresholdAddWater s)"
    and "counters m s" and "m < 200" and "relay s \<longleftrightarrow> 180 \<le> m"
  shows "counters ((m + n) mod 200) ((irrigate ^^ n) s) \<and>
         (relay ((irrigate ^^ n) s) \<longleftrightarrow> 180 \<le> (m + n) mod 200) \<and>
         fless (soilMoisturePercent ((irrigate ^^ n) s)) (thresholdAddWater ((irrigate ^^ n) s))"
proof (induction n)
  case 0
  then show ?case using assms by simp
next
  case (Suc n)
  let ?t = "(irrigate ^^ n) s"
  let ?k = "(m + n) mod 200"
  from Suc have c: "counters ?k ?t" and r: "relay ?t \<longleftrightarrow> 180 \<le> ?k"
    and dry: "fless (soilMoisturePercent ?t) (thresholdAddWater ?t)" by simp_all
  have k: "?k < 200" by simp
  have e: "Suc ?k mod 200 = (m + Suc n) mod 200"
    by (metis add_Suc_right mod_Suc_eq)
  have "counters (Suc ?k mod 200) (irrigate ?t)"
    using irrigate_dry_counters(1) [OF dry c k] .
  moreover have "relay (irrigate ?t) \<longleftrightarrow> 180 \<le> Suc ?k mod 200"
    using irrigate_dry_counters(2) [OF dry c k] r k by (auto simp add: mod_Suc)
  ultimately show ?case using dry by (simp add: e)
qed

lemma run_seconds_fields:
  assumes "previousMillisSense s = of_nat (1000 * k)"
  shows "previousMillisSense (run (seconds raw k n) s) = of_nat (1000 * (k + n)) \<and>
         thresholdAddWater (run (seconds raw k n) s) = thresholdAddWater s"
  using assms
proof (induction n arbitrary: k s)
  case 0
  then show ?case by simp
next
  case (Suc n)
  have p: "previousMillisSense (loop (second raw (Suc k)) s) = of_nat (1000 * Suc k)"
    by (rule loop_second(1) [OF Suc.prems])
  have t: "thresholdAddWater (loop (second raw (Suc k)) s) = thresholdAddWater s"
    by (rule loop_second(2) [OF Suc.prems])
  show ?case using Suc.IH [OF p] by (simp add: t)
qed


lemma run_all_satisfied:
  assumes "all_satisfied is s"
  shows "dryTimeSum (run is s) = dryTimeSum s \<and> addWaterSum (run is s) = addWaterSum s \<and>
         (is \<noteq> [] \<longrightarrow> \<not> relay (run is s))"
  using assms
proof (induction "is" arbitrary: s)
  case Nil
  then show ?case by simp
next
  case (Cons i "is")
  from Cons.prems have t: "satisfied_tick i s" and rest: "all_satisfied is (loop i s)"
    by simp_all
  show ?case
    using Cons.IH [OF rest] loop_satisfied [OF t] by (cases "is") simp_all
qed


lemma inv_reachable: "inv (run is init)"
  by (rule inv_run [OF inv_init])

lemma inv_bounds:
  assumes "inv s"
  shows "unat (dryTimeSum s) \<le> 199000" and "unat (addWaterSum s) \<le> 20000"
    and "0 < addWaterSum s \<longrightarrow> dryTime \<le> dryTimeSum s"
proof -
  from assms obtain m where m: "m < 200" and c: "counters m s" by (auto simp add: inv_def)
  have d: "unat (dryTimeSum s) = 1000 * m" and a: "unat (addWaterSum s) = 1000 * (m - 179)"
    using c by (simp_all add: counters_def)
  show "unat (dryTimeSum s) \<le> 199000" using d m by simp
  show "unat (addWaterSum s) \<le> 20000" using a m by simp
  show "0 < addWaterSum s \<longrightarrow> dryTime \<le> dryTimeSum s"
    using d a by (auto simp add: word_less_nat_alt word_le_nat_alt unat_consts)
qed

lemma run_threshold:
  assumes "thresholdAddWater s = Finite (of_int t)"
    and "\<bar>t\<bar> + int (length is) \<le> 2 ^ 24"
  shows "thresholdAddWater (run is s) =
           Finite (of_int (t + int (length (filter button1 is)) - int (length (filter button2 is))))"
  using assms
proof (induction "is" arbitrary: s t)
  case Nil
  then show ?case by simp
next
  case (Cons i "is")
  let ?u = "t + (if button1 i then 1 else 0) - (if button2 i then 1 else 0)"
  have small: "\<bar>t\<bar> < 2 ^ 24" using Cons.prems(2) by simp
  have thr: "thresholdAddWater (loop i s) = Finite (of_int ?u)"
    using buttons_threshold [OF Cons.prems(1) small] by (simp add: loop_threshold)
  have len: "\<bar>?u\<bar> + int (length is) \<le> 2 ^ 24"
    using Cons.prems(2) by (cases "button1 i"; cases "button2 i"; simp; linarith)
  show ?case using Cons.IH [OF thr len] by simp
qed

lemma run_threshold_in_range:
  assumes "thresholdAddWater s = Finite (of_int t)"
    and "threshold_in_range t is"
  shows "thresholdAddWater (run is s) =
           Finite (of_int (t + int (length (filter button1 is)) - int (length (filter button2 is))))"
  using assms
proof (induction "is" arbitrary: s t)
  case Nil
  then show ?case by simp
next
  case (Cons i "is")
  let ?u = "t + (if button1 i then 1 else 0) - (if button2 i then 1 else 0)"
  have small: "\<bar>t\<bar> < 2 ^ 24" and rest: "threshold_in_range ?u is"
    using Cons.prems(2) by simp_all
  have thr: "thresholdAddWater (loop i s) = Finite (of_int ?u)"
    using buttons_threshold [OF Cons.prems(1) small] by (simp add: loop_threshold)
  show ?case using Cons.IH [OF thr rest] by simp
qed

lemma threshold_in_range_idle:
  assumes "\<not> button1 i" and "\<not> button2 i" and "\<bar>t\<bar> < 2 ^ 24"
  shows "threshold_in_range t (replicate n i)"
  using assms by (induction n) simp_all

lemma threshold_in_range_append:
  "threshold_in_range t (xs @ ys) \<longleftrightarrow>
     threshold_in_range t xs \<and>
     threshold_in_range
       (t + int (length (filter button1 xs)) - int (length (filter button2 xs))) ys"
  by (induction xs arbitrary: t) (auto simp add: algebra_simps)


section \<open>Concrete runs\<close>

lemma length_seconds [simp]: "length (seconds raw k n) = n"
  by (induction n arbitrary: k) simp_all

lemma all_dry_seconds:
  assumes "previousMillisSense s = of_nat (1000 * k)"
    and "fless (moisture_percent raw) (thresholdAddWater s)"
  shows "all_dry (seconds raw k n) s"
  using assms
proof (induction n arbitrary: k s)
  case 0
  then show ?case by simp
next
  case (Suc n)
  have "dry_tick (second raw (Suc k)) s"
    using samples_second [OF Suc.prems(1), of raw] Suc.prems(2)
    by (simp add: dry_tick_def second_def)
  moreover have "all_dry (seconds raw (Suc k) n) (loop (second raw (Suc k)) s)"
  proof (rule Suc.IH)
    show "previousMillisSense (loop (second raw (Suc k)) s) = of_nat (1000 * Suc k)"
      by (rule loop_second(1) [OF Suc.prems(1)])
    show "fless (moisture_percent raw) (thresholdAddWater (loop (second raw (Suc k)) s))"
      using Suc.prems(2) unfolding loop_second(2) [OF Suc.prems(1)] .
  qed
  ultimately show ?case by simp
qed

lemma all_satisfied_seconds:
  assumes "previousMillisSense s = of_nat (1000 * k)"
    and "\<not> fless (moisture_percent raw) (thresholdAddWater s)"
  shows "all_satisfied (seconds raw k n) s"
  using assms
proof (induction n arbitrary: k s)
  case 0
  then show ?case by simp
next
  case (Suc n)
  have "satisfied_tick (second raw (Suc k)) s"
    using samples_second [OF Suc.prems(1), of raw] Suc.prems(2)
    by (simp add: satisfied_tick_def second_def)
  moreover have "all_satisfied (seconds raw (Suc k) n) (loop (second raw (Suc k)) s)"
  proof (rule Suc.IH)
    show "previousMillisSense (loop (second raw (Suc k)) s) = of_nat (1000 * Suc k)"
      by (rule loop_second(1) [OF Suc.prems(1)])
    show "\<not> fless (moisture_percent raw) (thresholdAddWater (loop (second raw (Suc k)) s))"
      using Suc.prems(2) unfolding loop_second(2) [OF Suc.prems(1)] .
  qed
  ultimately show ?case by simp
qed

text \<open>The run of \<open>n\<close> dry seconds from the initial state, reading 500 each time.\<close>

lemma dry_seconds:
  "all_dry (seconds 500 0 n) init \<and>
   counters (n mod 200) (run (seconds 500 0 n) init) \<and>
   (relay (run (seconds 500 0 n) init) \<longleftrightarrow> 180 \<le> n mod 200) \<and>
   previousMillisSense (run (seconds 500 0 n) init) = of_nat (1000 * n) \<and>
   thresholdAddWater (run (seconds 500 0 n) init) = Finite 37"
proof -
  have p: "previousMillisSense init = of_nat (1000 * 0)" by (simp add: init_def)
  have t: "fless (moisture_percent 500) (thresholdAddWater init)"
    using dry_500 by (simp add: init_def)
  have c: "counters 0 init" by (simp add: counters_0 init_def)
  have r: "relay init \<longleftrightarrow> 180 \<le> (0::nat)" by (simp add: init_def)
  have a: "all_dry (seconds 500 0 n) init" by (rule all_dry_seconds [OF p t])
  show ?thesis
    using a run_all_dry [OF a c _ r] run_seconds_fields [OF p, of 500 n]
    by (simp add: init_def)
qed

lemma tick_after_dry_seconds:
  "samples (second raw (Suc n)) (run (seconds 500 0 n) init)"
  using dry_seconds [of n] by (simp add: samples_second)

lemma unat_word_eq: "unat (x :: 32 word) = n \<Longrightarrow> x = of_nat n"
  by auto

text \<open>
  Ninety dry seconds, then a reading of 100 (a percentage of about 88.9) at second 91,
  then a reading of 500 (about 20.5) at second 92.
\<close>

lemma scenario_90:
  defines "s \<equiv> run (seconds 500 0 90) init"
  shows "thresholdAddWater s = Finite 37"
    and "dryTimeSum s = 90000"
    and "samples (second 100 91) s"
    and "satisfied_tick (second 100 91) s"
    and "dry_tick (second 500 92) (loop (second 100 91) s)"
proof -
  note f = dry_seconds [of 90, folded s_def]
  let ?t = "loop (second 100 91) s"
  show thr: "thresholdAddWater s = Finite 37" using f by simp
  show d: "dryTimeSum s = 90000"
    using f unat_word_eq [of "dryTimeSum s" 90000] by (simp add: counters_def)
  show smp: "samples (second 100 91) s"
    using tick_after_dry_seconds [of 100 90] by (simp add: s_def)
  show sat: "satisfied_tick (second 100 91) s"
    using smp fle_not_fless [OF satisfied_100] by (simp add: satisfied_tick_second thr)
  have t_p: "previousMillisSense ?t = of_nat (1000 * 91)"
    using loop_second(1) [of s 90 100] f by simp
  have t_thr: "thresholdAddWater ?t = Finite 37"
    using loop_second(2) [of s 90 100] f by simp
  show "dry_tick (second 500 92) ?t"
    using samples_second [of ?t 91 500] t_p dry_500 by (simp add: dry_tick_second t_thr)
qed

text \<open>
  179 dry seconds, then \<open>n\<close> seconds with a reading of 100, then a reading of 500 at
  second \<open>180 + n\<close>.
\<close>

lemma scenario_179:
  fixes n :: nat
  defines "d \<equiv> run (seconds 500 0 179) init"
  shows "all_satisfied (seconds 100 179 n) d"
    and "thresholdAddWater (run (seconds 100 179 n) d) = Finite 37"
    and "dryTimeSum (run (seconds 100 179 n) d) = 179000"
    and "addWaterSum (run (seconds 100 179 n) d) = 0"
    and "\<not> relay (run (seconds 100 179 n) d)"
    and "dry_tick (second 500 (Suc (179 + n))) (run (seconds 100 179 n) d)"
    and "dryTimeSum (loop (second 500 (Suc (179 + n))) (run (seconds 100 179 n) d)) = 180000"
    and "relay (loop (second 500 (Suc (179 + n))) (run (seconds 100 179 n) d))"
proof -
  note f = dry_seconds [of 179, folded d_def]
  let ?s = "run (seconds 100 179 n) d"
  let ?j = "second 500 (Suc (179 + n))"
  have p: "previousMillisSense d = of_nat (1000 * 179)" using f by simp
  have thr_d: "thresholdAddWater d = Finite 37" using f by simp
  have off_d: "\<not> relay d" using f by simp
  have c_d: "counters 179 d" using f by simp
  have sat: "\<not> fless (moisture_percent 100) (thresholdAddWater d)"
    using fle_not_fless [OF satisfied_100] by (simp add: thr_d)
  show a: "all_satisfied (seconds 100 179 n) d" by (rule all_satisfied_seconds [OF p sat])
  note k = run_all_satisfied [OF a]
  note g = run_seconds_fields [OF p, of 100 n]
  show thr: "thresholdAddWater ?s = Finite 37" using g thr_d by simp
  have c: "counters 179 ?s" using c_d k by (simp add: counters_def)
  show "dryTimeSum ?s = 179000"
    using c unat_word_eq [of "dryTimeSum ?s" 179000] by (simp add: counters_def)
  show "addWaterSum ?s = 0" using c by (simp add: counters_def unat_eq_0)
  show off: "\<not> relay ?s"
  proof (cases n)
    case 0
    then show ?thesis using off_d by simp
  next
    case (Suc m)
    then have "seconds 100 179 n \<noteq> []" by simp
    then show ?thesis using k by simp
  qed
  have ps: "previousMillisSense ?s = of_nat (1000 * (179 + n))" using g by simp
  show dry: "dry_tick ?j ?s"
    using samples_second [OF ps, of 500] dry_500 by (simp add: dry_tick_second thr)
  have m: "(179 :: nat) < 200" by simp
  have c': "counters 180 (loop ?j ?s)"
    using loop_dry(1) [OF dry c m] by simp
  show "dryTimeSum (loop ?j ?s) = 180000"
    using c' unat_word_eq [of "dryTimeSum (loop ?j ?s)" 180000]
    by (simp add: counters_def)
  show "relay (loop ?j ?s)"
    using loop_dry(2) [OF dry c m] by simp
qed

lemma seconds_append: "seconds raw k (m + n) = seconds raw k m @ seconds raw (k + m) n"
  by (induction m arbitrary: k) simp_all

lemma up_presses:
  "thresholdAddWater
     (run (replicate n \<lparr>button1 = True, button2 = False, millis = 0, analogRead = 0\<rparr>) init)
   = Finite (of_int (37 + int n))" if "37 + int n \<le> 2 ^ 24"
proof -
  have t: "thresholdAddWater init = Finite (of_int 37)" by (simp add: init_def)
  show ?thesis using run_threshold [OF t, of "replicate n _"] that by simp
qed


section \<open>The claims\<close>

text \<open>
  C1. The claim has every sampling tick whose reading is at or above the threshold reset
  both counters, so that the dry count starts again from 0. The sketch does not do it:
  lines 165 to 169 only switch the relay off, unlike the soak branch of lines 153 to
  158, which resets both counters with it. What \<open>loop\<close> does on two runs from the
  initial state, the readings 500 (about 20.5 percent) dry and 100 (about 88.9 percent)
  satisfied against the threshold 37: after 90 dry seconds a satisfied tick leaves
  \<open>dryTimeSum\<close> at 90000 and the dry tick after it counts on to 91000; and after 179
  dry seconds any number \<open>n\<close> of satisfied seconds leave \<open>dryTimeSum\<close> at 179000, the
  pump off, and one single dry tick then switches the pump on.
\<close>

theorem satisfied_tick_does_not_reset:
  "fle (thresholdAddWater (run (seconds 500 0 90) init)) (moisture_percent 100) \<and>
   satisfied_tick (second 100 91) (run (seconds 500 0 90) init) \<and>
   dryTimeSum (loop (second 100 91) (run (seconds 500 0 90) init)) = 90000 \<and>
   dry_tick (second 500 92) (loop (second 100 91) (run (seconds 500 0 90) init)) \<and>
   dryTimeSum (loop (second 500 92) (loop (second 100 91) (run (seconds 500 0 90) init)))
     = 91000 \<and>
   all_satisfied (seconds 100 179 n) (run (seconds 500 0 179) init) \<and>
   dryTimeSum (run (seconds 100 179 n) (run (seconds 500 0 179) init)) = 179000 \<and>
   addWaterSum (run (seconds 100 179 n) (run (seconds 500 0 179) init)) = 0 \<and>
   \<not> relay (run (seconds 100 179 n) (run (seconds 500 0 179) init)) \<and>
   dry_tick (second 500 (Suc (179 + n)))
     (run (seconds 100 179 n) (run (seconds 500 0 179) init)) \<and>
   dryTimeSum (loop (second 500 (Suc (179 + n)))
     (run (seconds 100 179 n) (run (seconds 500 0 179) init))) = 180000 \<and>
   relay (loop (second 500 (Suc (179 + n)))
     (run (seconds 100 179 n) (run (seconds 500 0 179) init)))"
proof -
  let ?s = "run (seconds 500 0 90) init"
  let ?t = "loop (second 100 91) ?s"
  have t_d: "dryTimeSum ?t = 90000"
    using loop_satisfied(1) [OF scenario_90(4)] scenario_90(2) by simp
  have "dryTimeSum (loop (second 500 92) ?t) = dryTimeSum ?t + intervalSense"
    using loop_dry_confirming(1) [OF scenario_90(5)] by (simp add: t_d)
  then have "dryTimeSum (loop (second 500 92) ?t) = 91000"
    by (simp add: t_d intervalSense_def)
  then have first: "fle (thresholdAddWater ?s) (moisture_percent 100) \<and>
      satisfied_tick (second 100 91) ?s \<and> dryTimeSum ?t = 90000 \<and>
      dry_tick (second 500 92) ?t \<and> dryTimeSum (loop (second 500 92) ?t) = 91000"
    using scenario_90(1,4,5) satisfied_100 t_d by simp
  show ?thesis
    using first scenario_179 [of n] by (simp only: simp_thms)
qed

text \<open>
  C2. From zeroed counters and a resting pump, the pump is off after every run of fewer
  than 180 consecutive dry sampling ticks, the 179th included, and on after the 180th.
\<close>

theorem dry_confirmation_delay:
  assumes "dryTimeSum s = 0" and "addWaterSum s = 0" and "\<not> relay s" and "all_dry is s"
  shows "(length is < 180 \<longrightarrow> \<not> relay (run is s)) \<and> (length is = 180 \<longrightarrow> relay (run is s))"
proof -
  have c: "counters 0 s" using assms(1,2) by (simp add: counters_0)
  have r: "relay s \<longleftrightarrow> 180 \<le> (0::nat)" using assms(3) by simp
  have "relay (run is s) \<longleftrightarrow> 180 \<le> (0 + length is) mod 200"
    using run_all_dry [OF assms(4) c _ r] by simp
  then show ?thesis by auto
qed

theorem dry_confirmation_delay_witness:
  "dryTimeSum init = 0 \<and> addWaterSum init = 0 \<and> \<not> relay init \<and>
   all_dry (seconds 500 0 179) init \<and> all_dry (seconds 500 0 180) init \<and>
   length (seconds 500 0 179) < 180 \<and> length (seconds 500 0 180) = 180 \<and>
   \<not> relay (run (seconds 500 0 179) init) \<and> relay (run (seconds 500 0 180) init)"
proof -
  have z: "dryTimeSum init = 0" "addWaterSum init = 0" "\<not> relay init"
    by (simp_all add: init_def)
  have a: "all_dry (seconds 500 0 179) init" and b: "all_dry (seconds 500 0 180) init"
    using dry_seconds by simp_all
  show ?thesis
    using dry_confirmation_delay [OF z a] dry_confirmation_delay [OF z b] z a b by simp
qed



text \<open>
  C4, as the code has it. With the threshold at 37.0 and the reading held at 30.0, from
  zeroed counters and a resting pump: the pump is off after each of the ticks 1 to 179,
  on after each of the ticks 180 to 199, and off with both counters at 0 after tick 200;
  from there the counting starts again, the state after tick \<open>200 + k\<close> agreeing with
  the state after tick \<open>k\<close> in both counters and the relay.
\<close>

theorem end_to_end_cycle:
  assumes "soilMoisturePercent s = Finite 30" and "thresholdAddWater s = Finite 37"
    and "dryTimeSum s = 0" and "addWaterSum s = 0" and "\<not> relay s"
  shows "(n \<le> 179 \<longrightarrow> \<not> relay ((irrigate ^^ n) s)) \<and>
         (180 \<le> n \<and> n \<le> 199 \<longrightarrow> relay ((irrigate ^^ n) s)) \<and>
         (n = 200 \<longrightarrow> \<not> relay ((irrigate ^^ n) s) \<and> dryTimeSum ((irrigate ^^ n) s) = 0 \<and>
            addWaterSum ((irrigate ^^ n) s) = 0) \<and>
         dryTimeSum ((irrigate ^^ (200 + n)) s) = dryTimeSum ((irrigate ^^ n) s) \<and>
         addWaterSum ((irrigate ^^ (200 + n)) s) = addWaterSum ((irrigate ^^ n) s) \<and>
         relay ((irrigate ^^ (200 + n)) s) = relay ((irrigate ^^ n) s)"
proof -
  have dry: "fless (soilMoisturePercent s) (thresholdAddWater s)" using assms(1,2) by simp
  have c: "counters 0 s" using assms(3,4) by (simp add: counters_0)
  have r: "relay s \<longleftrightarrow> 180 \<le> (0::nat)" using assms(5) by simp
  have cyc: "counters (k mod 200) ((irrigate ^^ k) s)"
    and rel: "relay ((irrigate ^^ k) s) \<longleftrightarrow> 180 \<le> k mod 200" for k
    using irrigate_pow_dry [OF dry c _ r, of k] by simp_all
  have a: "n \<le> 179 \<longrightarrow> \<not> relay ((irrigate ^^ n) s)" using rel [of n] by simp
  have b: "180 \<le> n \<and> n \<le> 199 \<longrightarrow> relay ((irrigate ^^ n) s)" using rel [of n] by simp
  have d: "n = 200 \<longrightarrow> \<not> relay ((irrigate ^^ n) s) \<and> dryTimeSum ((irrigate ^^ n) s) = 0 \<and>
            addWaterSum ((irrigate ^^ n) s) = 0"
    using rel [of n] cyc [of n] by (auto simp add: counters_0)
  have "counters (n mod 200) ((irrigate ^^ (200 + n)) s)" using cyc [of "200 + n"] by simp
  from counters_eq [OF this cyc [of n]]
  have e: "dryTimeSum ((irrigate ^^ (200 + n)) s) = dryTimeSum ((irrigate ^^ n) s)"
    "addWaterSum ((irrigate ^^ (200 + n)) s) = addWaterSum ((irrigate ^^ n) s)"
    by simp_all
  have f: "relay ((irrigate ^^ (200 + n)) s) = relay ((irrigate ^^ n) s)"
    using rel [of "200 + n"] rel [of n] by simp
  show ?thesis using a b d e f by blast
qed

theorem end_to_end_cycle_witness:
  "soilMoisturePercent (init\<lparr>soilMoisturePercent := Finite 30\<rparr>) = Finite 30 \<and>
   thresholdAddWater (init\<lparr>soilMoisturePercent := Finite 30\<rparr>) = Finite 37 \<and>
   dryTimeSum (init\<lparr>soilMoisturePercent := Finite 30\<rparr>) = 0 \<and>
   addWaterSum (init\<lparr>soilMoisturePercent := Finite 30\<rparr>) = 0 \<and>
   \<not> relay (init\<lparr>soilMoisturePercent := Finite 30\<rparr>) \<and>
   \<not> relay ((irrigate ^^ 179) (init\<lparr>soilMoisturePercent := Finite 30\<rparr>)) \<and>
   relay ((irrigate ^^ 199) (init\<lparr>soilMoisturePercent := Finite 30\<rparr>)) \<and>
   \<not> relay ((irrigate ^^ 200) (init\<lparr>soilMoisturePercent := Finite 30\<rparr>)) \<and>
   dryTimeSum ((irrigate ^^ 200) (init\<lparr>soilMoisturePercent := Finite 30\<rparr>)) = 0 \<and>
   addWaterSum ((irrigate ^^ 200) (init\<lparr>soilMoisturePercent := Finite 30\<rparr>)) = 0"
proof -
  let ?s = "init\<lparr>soilMoisturePercent := Finite 30\<rparr>"
  have h: "soilMoisturePercent ?s = Finite 30" "thresholdAddWater ?s = Finite 37"
    "dryTimeSum ?s = 0" "addWaterSum ?s = 0" "\<not> relay ?s"
    by (simp_all add: init_def)
  show ?thesis
    using end_to_end_cycle [OF h, of 179] end_to_end_cycle [OF h, of 199]
      end_to_end_cycle [OF h, of 200] h
    by simp
qed

text \<open>
  The tick numbers of the claim are one too high: the pump is already on after tick
  180, where the claim has it off, and off after tick 200, where the claim has it on.
\<close>

theorem end_to_end_cycle_counterexample:
  "relay ((irrigate ^^ 180) (init\<lparr>soilMoisturePercent := Finite 30\<rparr>)) \<and>
   \<not> relay ((irrigate ^^ 200) (init\<lparr>soilMoisturePercent := Finite 30\<rparr>))"
proof -
  let ?s = "init\<lparr>soilMoisturePercent := Finite 30\<rparr>"
  have dry: "fless (soilMoisturePercent ?s) (thresholdAddWater ?s)" by (simp add: init_def)
  have c: "counters 0 ?s" by (simp add: counters_0 init_def)
  have r: "relay ?s \<longleftrightarrow> 180 \<le> (0::nat)" by (simp add: init_def)
  show ?thesis
    using irrigate_pow_dry [OF dry c _ r, of 180] irrigate_pow_dry [OF dry c _ r, of 200]
    by simp
qed

text \<open>
  C5, as the code has it. Along every run from the initial state neither counter is
  negative, \<open>addWaterSum\<close> never exceeds \<open>addWater\<close>, and \<open>dryTimeSum\<close> never
  exceeds \<open>dryTime + addWater - intervalSense\<close>, that is 199000 ms: line 142 keeps
  adding to \<open>dryTimeSum\<close> on every dry tick of the dose.
\<close>

theorem counters_bounded:
  "0 \<le> uint (dryTimeSum (run is init)) \<and> 0 \<le> uint (addWaterSum (run is init)) \<and>
   unat (addWaterSum (run is init)) \<le> unat addWater \<and>
   unat (dryTimeSum (run is init)) \<le> unat dryTime + unat addWater - unat intervalSense"
  using inv_bounds(1,2) [OF inv_reachable, of "is"] by (simp add: unat_consts)

text \<open>
  The bound of the claim, \<open>dryTime\<close> plus one interval, is passed during the dose:
  after 199 dry seconds \<open>dryTimeSum\<close> is 199000.
\<close>

theorem counters_bounded_counterexample:
  "unat (dryTimeSum (run (seconds 500 0 199) init)) = 199000 \<and>
   \<not> unat (dryTimeSum (run (seconds 500 0 199) init)) \<le> unat dryTime + unat intervalSense"
  using dry_seconds [of 199] by (simp add: counters_def unat_consts)

text \<open>
  C6. The conversion of line 136 is \<open>100 - (raw - 35) / 585 * 100\<close> in single
  precision, 585 being \<open>AirValue - WaterValue\<close>; for a raw value of the converter's
  range 0 to 1023 the result is a finite number within \<open>1 / 50000\<close> of the exact
  value of the formula; a raw value of 620 gives 0 and a raw value of 35 gives 100; and
  for raw values \<open>r1 \<le> r2\<close> the percentage of \<open>r2\<close> is at most the percentage of
  \<open>r1\<close>.
\<close>

theorem moisture_conversion:
  "moisture_percent raw =
     fsub (Finite 100)
       (fmul (fdiv (fsub (float_of_int raw) (Finite 35)) (Finite 585)) (Finite 100)) \<and>
   AirValue = Finite 620 \<and> WaterValue = Finite 35 \<and>
   fsub AirValue WaterValue = Finite 585 \<and>
   (0 \<le> raw \<and> raw \<le> 1023 \<longrightarrow>
      (\<exists>p. moisture_percent raw = Finite p \<and>
           \<bar>p - (100 - (of_int raw - 35) / (620 - 35) * 100)\<bar> \<le> 1 / 50000)) \<and>
   moisture_percent 620 = Finite 0 \<and>
   moisture_percent 35 = Finite 100 \<and>
   (r1 \<le> r2 \<longrightarrow> fle (moisture_percent r2) (moisture_percent r1))"
proof -
  have "\<exists>p. moisture_percent raw = Finite p \<and>
           \<bar>p - (100 - (of_int raw - 35) / (620 - 35) * 100)\<bar> \<le> 1 / 50000"
    if "0 \<le> raw" and "raw \<le> 1023"
    using moisture_percent_accuracy [OF that] by simp
  then show ?thesis
    using moisture_percent_formula [of raw] calibration_span moisture_620 moisture_35
      moisture_percent_anti [of r1 r2]
    by (simp add: AirValue_def WaterValue_def)
qed

theorem moisture_conversion_witness:
  "(0 :: int) \<le> 500 \<and> (500 :: int) \<le> 1023 \<and>
   (\<exists>p. moisture_percent 500 = Finite p \<and>
        \<bar>p - (100 - (of_int 500 - 35) / (620 - 35) * 100)\<bar> \<le> 1 / 50000) \<and>
   (100 :: int) \<le> 500 \<and> fle (moisture_percent 500) (moisture_percent 100) \<and>
   moisture_percent 500 = Finite (168041 / 8192) \<and>
   moisture_percent 100 = Finite (2912711 / 32768)"
proof -
  note w = moisture_conversion [of 500 100 500]
  from w have "(0 :: int) \<le> 500 \<and> (500 :: int) \<le> 1023 \<longrightarrow>
      (\<exists>p. moisture_percent 500 = Finite p \<and>
           \<bar>p - (100 - (of_int 500 - 35) / (620 - 35) * 100)\<bar> \<le> 1 / 50000)"
    by (elim conjE)
  then have a: "\<exists>p. moisture_percent 500 = Finite p \<and>
           \<bar>p - (100 - (of_int 500 - 35) / (620 - 35) * 100)\<bar> \<le> 1 / 50000"
    by simp
  from w
  have "(100 :: int) \<le> 500 \<longrightarrow> fle (moisture_percent 500) (moisture_percent 100)"
    by (elim conjE)
  then have b: "fle (moisture_percent 500) (moisture_percent 100)" by simp
  show ?thesis using a b by (simp add: moisture_500 moisture_100)
qed

text \<open>
  C7, as the code has it. While the threshold is a whole number of magnitude below
  \<open>2 ^ 24\<close>, every pass through \<open>loop\<close> adds exactly 1 to it when button 1 reports a
  press and subtracts exactly 1 when button 2 does, with no clamping, and nothing else
  in the pass changes it: after any run of passes, of any length, along which the
  threshold stays in that range, it is the start value plus the number of button 1
  presses minus the number of button 2 presses, however many passes and sampling ticks
  lie between the presses.
\<close>

theorem threshold_adjustment:
  assumes "thresholdAddWater s = Finite (of_int t)"
    and "threshold_in_range t is"
  shows "thresholdAddWater (run is s) =
           Finite (of_int (t + int (length (filter button1 is))
                             - int (length (filter button2 is))))"
  using assms by (rule run_threshold_in_range)

text \<open>
  Two runs from the initial threshold 37: six passes with two presses of button 1, a
  press of button 2 and sampling ticks between them; and \<open>2 ^ 25\<close> passes without a
  press followed by the same three presses. Both end at 38.
\<close>

theorem threshold_adjustment_witness:
  "thresholdAddWater init = Finite (of_int 37) \<and>
   threshold_in_range 37
     [\<lparr>button1 = True, button2 = False, millis = 10, analogRead = 500\<rparr>,
      \<lparr>button1 = False, button2 = False, millis = 1000, analogRead = 500\<rparr>,
      \<lparr>button1 = True, button2 = False, millis = 1500, analogRead = 500\<rparr>,
      \<lparr>button1 = False, button2 = False, millis = 2000, analogRead = 100\<rparr>,
      \<lparr>button1 = False, button2 = False, millis = 3000, analogRead = 100\<rparr>,
      \<lparr>button1 = False, button2 = True, millis = 3001, analogRead = 100\<rparr>] \<and>
   thresholdAddWater (run
     [\<lparr>button1 = True, button2 = False, millis = 10, analogRead = 500\<rparr>,
      \<lparr>button1 = False, button2 = False, millis = 1000, analogRead = 500\<rparr>,
      \<lparr>button1 = True, button2 = False, millis = 1500, analogRead = 500\<rparr>,
      \<lparr>button1 = False, button2 = False, millis = 2000, analogRead = 100\<rparr>,
      \<lparr>button1 = False, button2 = False, millis = 3000, analogRead = 100\<rparr>,
      \<lparr>button1 = False, button2 = True, millis = 3001, analogRead = 100\<rparr>] init)
   = Finite 38 \<and>
   threshold_in_range 37
     (replicate 33554432 \<lparr>button1 = False, button2 = False, millis = 0, analogRead = 0\<rparr> @
      [\<lparr>button1 = True, button2 = False, millis = 0, analogRead = 0\<rparr>,
       \<lparr>button1 = True, button2 = False, millis = 0, analogRead = 0\<rparr>,
       \<lparr>button1 = False, button2 = True, millis = 0, analogRead = 0\<rparr>]) \<and>
   thresholdAddWater (run
     (replicate 33554432 \<lparr>button1 = False, button2 = False, millis = 0, analogRead = 0\<rparr> @
      [\<lparr>button1 = True, button2 = False, millis = 0, analogRead = 0\<rparr>,
       \<lparr>button1 = True, button2 = False, millis = 0, analogRead = 0\<rparr>,
       \<lparr>button1 = False, button2 = True, millis = 0, analogRead = 0\<rparr>]) init)
   = Finite 38"
proof -
  let ?short =
    "[\<lparr>button1 = True, button2 = False, millis = 10, analogRead = 500\<rparr>,
      \<lparr>button1 = False, button2 = False, millis = 1000, analogRead = 500\<rparr>,
      \<lparr>button1 = True, button2 = False, millis = 1500, analogRead = 500\<rparr>,
      \<lparr>button1 = False, button2 = False, millis = 2000, analogRead = 100\<rparr>,
      \<lparr>button1 = False, button2 = False, millis = 3000, analogRead = 100\<rparr>,
      \<lparr>button1 = False, button2 = True, millis = 3001, analogRead = 100\<rparr>]"
  let ?idle = "\<lparr>button1 = False, button2 = False, millis = 0, analogRead = 0\<rparr>"
  let ?presses =
    "[\<lparr>button1 = True, button2 = False, millis = 0, analogRead = 0\<rparr>,
      \<lparr>button1 = True, button2 = False, millis = 0, analogRead = 0\<rparr>,
      \<lparr>button1 = False, button2 = True, millis = 0, analogRead = 0\<rparr>]"
  have t: "thresholdAddWater init = Finite (of_int 37)" by (simp add: init_def)
  have a: "threshold_in_range 37 ?short" by simp
  have "threshold_in_range 37 (replicate 33554432 ?idle)"
    by (rule threshold_in_range_idle) simp_all
  moreover have "threshold_in_range 37 ?presses" by simp
  ultimately have b: "threshold_in_range 37 (replicate 33554432 ?idle @ ?presses)"
    by (simp add: threshold_in_range_append)
  have "thresholdAddWater (run ?short init) = Finite 38"
    using threshold_adjustment [OF t a] by simp
  moreover have "thresholdAddWater (run (replicate 33554432 ?idle @ ?presses) init) = Finite 38"
    using threshold_adjustment [OF t b] by simp
  ultimately show ?thesis using t a b by simp
qed

text \<open>
  Without the bound the claim fails: 16777179 presses of button 1 take the threshold
  from 37 to \<open>2 ^ 24 = 16777216\<close>, and the next press leaves it there, since
  16777217 is not a single-precision number.
\<close>

theorem threshold_adjustment_counterexample:
  "thresholdAddWater
     (run (replicate 16777179 \<lparr>button1 = True, button2 = False, millis = 0, analogRead = 0\<rparr>)
        init) = Finite 16777216 \<and>
   thresholdAddWater
     (loop \<lparr>button1 = True, button2 = False, millis = 0, analogRead = 0\<rparr>
        (run (replicate 16777179 \<lparr>button1 = True, button2 = False, millis = 0, analogRead = 0\<rparr>)
           init)) = Finite 16777216"
proof -
  let ?up = "\<lparr>button1 = True, button2 = False, millis = 0, analogRead = 0\<rparr>"
  have a: "thresholdAddWater (run (replicate 16777179 ?up) init) = Finite 16777216"
    using up_presses [of 16777179] by simp
  have "thresholdAddWater (loop ?up (run (replicate 16777179 ?up) init))
      = fadd (Finite 16777216) (float_of_int 1)"
    by (simp add: loop_threshold buttons_def a)
  also have "\<dots> = Finite 16777216" by (simp add: float_eval)
  finally show ?thesis using a by simp
qed

text \<open>
  C8. From counters at 0 and a resting pump, every run of sampling ticks whose readings
  are not below the threshold, of any length, leaves both counters at 0 and the pump off.
\<close>

theorem satisfied_idempotent:
  assumes "dryTimeSum s = 0" and "addWaterSum s = 0" and "\<not> relay s"
    and "all_satisfied is s"
  shows "dryTimeSum (run is s) = 0 \<and> addWaterSum (run is s) = 0 \<and> \<not> relay (run is s)"
  using run_all_satisfied [OF assms(4)] assms(1,2,3) by (cases "is") simp_all

theorem satisfied_idempotent_witness:
  "dryTimeSum init = 0 \<and> addWaterSum init = 0 \<and> \<not> relay init \<and>
   all_satisfied (seconds 100 0 5) init \<and>
   dryTimeSum (run (seconds 100 0 5) init) = 0 \<and>
   addWaterSum (run (seconds 100 0 5) init) = 0 \<and>
   \<not> relay (run (seconds 100 0 5) init)"
proof -
  have z: "dryTimeSum init = 0" "addWaterSum init = 0" "\<not> relay init"
    by (simp_all add: init_def)
  have p: "previousMillisSense init = of_nat (1000 * 0)" by (simp add: init_def)
  have t: "\<not> fless (moisture_percent 100) (thresholdAddWater init)"
    using fle_not_fless [OF satisfied_100] by (simp add: init_def)
  have a: "all_satisfied (seconds 100 0 5) init" by (rule all_satisfied_seconds [OF p t])
  show ?thesis using satisfied_idempotent [OF z a] z a by simp
qed

text \<open>
  C10. Along every run from the initial state: when \<open>addWaterSum\<close> is positive,
  \<open>dryTimeSum\<close> has reached \<open>dryTime\<close>; a pass that advances \<open>addWaterSum\<close> ends
  with \<open>dryTimeSum\<close> at \<open>dryTime\<close> or above; and a pass that lowers one of the
  counters sets both to 0.
\<close>

theorem dose_only_after_confirmation:
  "(0 < addWaterSum (run is init) \<longrightarrow> dryTime \<le> dryTimeSum (run is init)) \<and>
   (addWaterSum (run is init) < addWaterSum (loop i (run is init)) \<longrightarrow>
      dryTime \<le> dryTimeSum (loop i (run is init))) \<and>
   (dryTimeSum (loop i (run is init)) < dryTimeSum (run is init) \<or>
    addWaterSum (loop i (run is init)) < addWaterSum (run is init) \<longrightarrow>
      dryTimeSum (loop i (run is init)) = 0 \<and> addWaterSum (loop i (run is init)) = 0)"
proof -
  let ?s = "run is init"
  have i1: "inv ?s" by (rule inv_reachable)
  have i2: "inv (loop i ?s)" by (rule inv_loop [OF i1])
  have a: "0 < addWaterSum ?s \<longrightarrow> dryTime \<le> dryTimeSum ?s" by (rule inv_bounds(3) [OF i1])
  have b: "addWaterSum ?s < addWaterSum (loop i ?s) \<longrightarrow> dryTime \<le> dryTimeSum (loop i ?s)"
  proof
    assume "addWaterSum ?s < addWaterSum (loop i ?s)"
    then have "0 < addWaterSum (loop i ?s)" by (simp add: word_less_nat_alt)
    then show "dryTime \<le> dryTimeSum (loop i ?s)" using inv_bounds(3) [OF i2] by simp
  qed
  have c: "dryTimeSum (loop i ?s) < dryTimeSum ?s \<or> addWaterSum (loop i ?s) < addWaterSum ?s \<longrightarrow>
      dryTimeSum (loop i ?s) = 0 \<and> addWaterSum (loop i ?s) = 0"
  proof -
    from i1 obtain m where m: "m < 200" and cm: "counters m ?s" by (auto simp add: inv_def)
    from loop_cases [of i ?s] show ?thesis
    proof (elim disjE)
      assume t: "dry_tick i ?s"
      have n: "counters (Suc m mod 200) (loop i ?s)" by (rule loop_dry(1) [OF t cm m])
      show ?thesis
      proof (cases "m = 199")
        case True
        then have "counters 0 (loop i ?s)" using n by simp
        then show ?thesis by (simp add: counters_0)
      next
        case False
        then have "Suc m mod 200 = Suc m" using m by simp
        then have "counters (Suc m) (loop i ?s)" using n by simp
        then show ?thesis using cm by (auto simp add: counters_def word_less_nat_alt)
      qed
    next
      assume t: "satisfied_tick i ?s"
      show ?thesis using loop_satisfied [OF t] by simp
    next
      assume t: "\<not> samples i ?s"
      show ?thesis by (simp add: loop_idle [OF t])
    qed
  qed
  show ?thesis using a b c by blast
qed

theorem dose_only_after_confirmation_witness:
  "0 < addWaterSum (run (seconds 500 0 180) init) \<and>
   dryTime \<le> dryTimeSum (run (seconds 500 0 180) init) \<and>
   addWaterSum (run (seconds 500 0 179) init)
     < addWaterSum (loop (second 500 180) (run (seconds 500 0 179) init)) \<and>
   dryTime \<le> dryTimeSum (loop (second 500 180) (run (seconds 500 0 179) init)) \<and>
   dryTimeSum (loop (second 500 200) (run (seconds 500 0 199) init))
     < dryTimeSum (run (seconds 500 0 199) init) \<and>
   dryTimeSum (loop (second 500 200) (run (seconds 500 0 199) init)) = 0 \<and>
   addWaterSum (loop (second 500 200) (run (seconds 500 0 199) init)) = 0"
proof -
  have e: "loop (second 500 (Suc n)) (run (seconds 500 0 n) init) = run (seconds 500 0 (Suc n)) init"
    for n
    using seconds_append [of 500 0 n 1] by (simp add: run_append)
  have u: "unat (dryTimeSum (run (seconds 500 0 n) init)) = 1000 * (n mod 200)"
    "unat (addWaterSum (run (seconds 500 0 n) init)) = 1000 * (n mod 200 - 179)" for n
    using dry_seconds [of n] by (simp_all add: counters_def)
  have h1: "0 < addWaterSum (run (seconds 500 0 180) init)"
    by (simp add: word_less_nat_alt u)
  have h2: "addWaterSum (run (seconds 500 0 179) init)
     < addWaterSum (loop (second 500 180) (run (seconds 500 0 179) init))"
    using e [of 179] by (simp add: word_less_nat_alt u)
  have h3: "dryTimeSum (loop (second 500 200) (run (seconds 500 0 199) init))
     < dryTimeSum (run (seconds 500 0 199) init)"
    using e [of 199] by (simp add: word_less_nat_alt u)
  show ?thesis
    using dose_only_after_confirmation [of "seconds 500 0 180" "second 500 181"]
      dose_only_after_confirmation [of "seconds 500 0 179" "second 500 180"]
      dose_only_after_confirmation [of "seconds 500 0 199" "second 500 200"]
      h1 h2 h3
    by simp
qed

end
